theory Spec2Isabelle
  imports Main
begin

section \<open>ecsctl: the cluster listing and the task follow loop\<close>

text \<open>
  A shallow embedding of \<^verbatim>\<open>cmd/clusters_list.go\<close> and
  \<^verbatim>\<open>cmd/task_definitions_run.go\<close>.

  Conventions of the embedding:
  \<^item> a Go pointer field of an SDK structure (\<^verbatim>\<open>*string\<close>, \<^verbatim>\<open>*int64\<close>) is an
    \<open>option\<close>, with \<open>None\<close> for \<^verbatim>\<open>nil\<close>; dereferencing \<open>None\<close> is a panic;
  \<^item> \<^verbatim>\<open>int64\<close> timestamps are \<open>int\<close>: the code only compares them, so no
    arithmetic can wrap;
  \<^item> standard output is the list of the chunks written, one per
    \<^verbatim>\<open>fmt.Println\<close>/\<^verbatim>\<open>fmt.Printf\<close> call, each with its final newline;
  \<^item> the remote services are scripts: the responses they give, in the order of the
    calls. A loop that waits for the service consumes the script and is still
    \<open>Running\<close> when the script ends;
  \<^item> the libraries the code calls (colours, time formatting, the JSON decoder and
    the colorjson formatter) are parameters, collected in the record \<open>libs\<close>.
\<close>

subsection \<open>Go runtime and library helpers\<close>

datatype panic = NilDereference | IndexOutOfRange | NilMapWrite

text \<open>\<^verbatim>\<open>aws.StringValue\<close>: the string behind a pointer, the empty string for nil.\<close>

definition StringValue :: "string option \<Rightarrow> string" where
  "StringValue p = (case p of None \<Rightarrow> [] | Some s \<Rightarrow> s)"

text \<open>What \<^verbatim>\<open>fmt.Println(s)\<close> writes.\<close>

definition println :: "string \<Rightarrow> string" where
  "println s = s @ [CHR 0x0A]"

text \<open>
  \<^verbatim>\<open>strings.Split(s, "/")\<close> for a one-character separator: the pieces between the
  separators, one more than there are separators (so the empty string gives one
  empty piece).
\<close>

fun strings_Split :: "string \<Rightarrow> char \<Rightarrow> string list" where
  "strings_Split [] sep = [[]]"
| "strings_Split (c # cs) sep =
     (if c = sep then [] # strings_Split cs sep
      else (case strings_Split cs sep of
              [] \<Rightarrow> [[c]]
            | w # ws \<Rightarrow> (c # w) # ws))"

text \<open>Indexing a slice: out of range is a run-time panic.\<close>

definition index :: "'a list \<Rightarrow> nat \<Rightarrow> panic + 'a" where
  "index xs i = (if i < length xs then Inr (xs ! i) else Inl IndexOutOfRange)"

text \<open>
  JSON values, as the decoder reads them; a number is kept as its literal.
\<close>

datatype json =
    JNull
  | JBool bool
  | JNumber string
  | JString string
  | JArray "json list"
  | JObject "(string \<times> json) list"

type_synonym jsonmap = "(string \<times> json) list option"

text \<open>
  Decoding a value into \<^verbatim>\<open>interface{}\<close> turns every number literal in it, at any
  depth, into a \<^verbatim>\<open>float64\<close> by \<^verbatim>\<open>strconv.ParseFloat(s, 64)\<close>; \<open>fits s\<close> says that
  this call returns no error. A literal that does not fit (such as \<^verbatim>\<open>1e999\<close>) is
  recorded as an error of the whole decoding.
\<close>

fun numbersFit :: "(string \<Rightarrow> bool) \<Rightarrow> json \<Rightarrow> bool" where
  "numbersFit fits JNull = True"
| "numbersFit fits (JBool b) = True"
| "numbersFit fits (JNumber s) = fits s"
| "numbersFit fits (JString s) = True"
| "numbersFit fits (JArray vs) = (\<forall>v \<in> set vs. numbersFit fits v)"
| "numbersFit fits (JObject kvs) = (\<forall>kv \<in> set kvs. numbersFit fits (snd kv))"

datatype unmarshal_error = SyntaxError | UnmarshalTypeError

record 'f libs =
  red :: "string \<Rightarrow> string"
  white :: "string \<Rightarrow> string"
  formatRFC3339 :: "int option \<Rightarrow> string"
  jsonDecode :: "string \<Rightarrow> json option"
  ParseFloat :: "string \<Rightarrow> bool"
  Marshal :: "'f \<Rightarrow> jsonmap \<Rightarrow> string"

text \<open>
  \<^verbatim>\<open>json.Unmarshal(bytes, &jl)\<close> with \<^verbatim>\<open>jl\<close> declared \<^verbatim>\<open>map[string]interface{}\<close>
  (line 64). \<open>jsonDecode\<close> is the decoder's reading of the text, \<open>None\<close> when its
  syntax check rejects it. Of the values read, \<^verbatim>\<open>null\<close> makes the map nil, and an
  object fills the map, with an error when a number in it does not fit a
  \<^verbatim>\<open>float64\<close>; every other value (array, string, number, boolean) is an error of
  type.
\<close>

definition json_Unmarshal :: "'f libs \<Rightarrow> string \<Rightarrow> unmarshal_error + jsonmap" where
  "json_Unmarshal L bytes =
     (case jsonDecode L bytes of
        None \<Rightarrow> Inl SyntaxError
      | Some JNull \<Rightarrow> Inr None
      | Some (JObject kvs) \<Rightarrow>
          if \<forall>kv \<in> set kvs. numbersFit (ParseFloat L) (snd kv) then Inr (Some kvs)
          else Inl UnmarshalTypeError
      | Some _ \<Rightarrow> Inl UnmarshalTypeError)"

subsection \<open>clusters list\<close>

record ListClustersOutput =
  ClusterArns :: "string option list"
  NextToken :: "string option"

text \<open>
  The state of \<^verbatim>\<open>clustersListRun\<close>: the token field of the request structure
  \<^verbatim>\<open>input\<close>, what was printed, and the token of every request sent so far.
\<close>

record clusters_state =
  inputNextToken :: "string option"
  requests :: "string option list"
  printed :: "string list"

datatype clusters_outcome =
    Waiting clusters_state
  | Returned clusters_state
  | Failed int clusters_state

text \<open>
  One round of the loop of \<^verbatim>\<open>clustersListRun\<close> (lines 16 to 37) for each response
  of the script; \<open>Inl e\<close> is a request error with message \<open>e\<close>.
\<close>

fun clustersListLoop ::
  "string option \<Rightarrow> clusters_state \<Rightarrow> (string + ListClustersOutput) list \<Rightarrow> clusters_outcome" where
  "clustersListLoop nextToken st [] = Waiting st"
| "clustersListLoop nextToken st (r # rs) =
     (let st1 = (if nextToken \<noteq> None then st\<lparr>inputNextToken := nextToken\<rparr> else st);
          st2 = st1\<lparr>requests := requests st1 @ [inputNextToken st1]\<rparr>
      in case r of
           Inl e \<Rightarrow> Failed 1 (st2\<lparr>printed := printed st2 @ [println e]\<rparr>)
         | Inr result \<Rightarrow>
             (let st3 = st2\<lparr>printed := printed st2 @
                          map (\<lambda>f. println (StringValue f)) (ClusterArns result)\<rparr>
              in if NextToken result = None then Returned st3
                 else clustersListLoop (NextToken result) st3 rs))"

definition clustersListRun :: "(string + ListClustersOutput) list \<Rightarrow> clusters_outcome" where
  "clustersListRun script =
     clustersListLoop None \<lparr>inputNextToken = None, requests = [], printed = []\<rparr> script"

subsection \<open>task-definitions run: rendering a log event\<close>

record FilteredLogEvent =
  EventId :: "string option"
  LogStreamName :: "string option"
  Message :: "string option"
  Timestamp :: "int option"

record FilterLogEventsOutput =
  Events :: "FilteredLogEvent list"

text \<open>The chunk that \<^verbatim>\<open>printEvent\<close> writes (lines 55 to 71).\<close>

definition printEvent :: "'f libs \<Rightarrow> 'f \<Rightarrow> FilteredLogEvent \<Rightarrow> string" where
  "printEvent L formatter event =
     (let str = StringValue (Message event);
          dateStr = formatRFC3339 L (Timestamp event);
          streamStr = StringValue (LogStreamName event)
      in case json_Unmarshal L str of
           Inl err \<Rightarrow>
             ''['' @ red L dateStr @ ''] ('' @ white L streamStr @ '') '' @ str @ [CHR 0x0A]
         | Inr jl \<Rightarrow>
             ''['' @ red L dateStr @ ''] ('' @ white L streamStr @ '') ''
               @ Marshal L formatter jl @ [CHR 0x0A])"

subsection \<open>task-definitions run: from the arguments to the follow loop\<close>

record LogConfiguration =
  LogDriver :: "string option"
  Options :: "string \<rightharpoonup> string"

record ContainerDefinition =
  Name :: "string option"
  LogConfig :: "LogConfiguration option"

record TaskDefinition =
  Revision :: "int option"
  ContainerDefinitions :: "ContainerDefinition list"

record Task =
  TaskArn :: "string option"
  LastStatus :: "string option"

text \<open>
  The command's flags and the two service calls made before the loop. A call takes
  what the request carries and answers \<open>Inl e\<close> for an error with message \<open>e\<close>.
  \<open>FormatInt\<close> is \<^verbatim>\<open>strconv.FormatInt(_, 10)\<close>.
\<close>

record run_env =
  revision :: string
  cluster :: string
  follow :: bool
  FormatInt :: "int \<Rightarrow> string"
  DescribeTaskDefinition :: "string \<Rightarrow> string + TaskDefinition option"
  RunTask :: "string \<Rightarrow> string \<Rightarrow> string + Task list"

text \<open>What the loop is started with: the task ID, and the log group and stream queried.\<close>

record follow_params =
  taskID :: string
  logGroup :: "string option"
  logStreamName :: string

datatype setup_outcome =
    SetupExit int "string list"
  | SetupPanic panic
  | Follow follow_params

text \<open>Lines 125 and 126: the task ID taken from the task ARN.\<close>

definition deriveTaskID :: "string option \<Rightarrow> panic + string" where
  "deriveTaskID arn = index (strings_Split (StringValue arn) CHR ''/'') 1"

text \<open>
  Lines 125 to 162, reached when a task was started and \<^verbatim>\<open>--follow\<close> is set. The
  signal handler of \<^verbatim>\<open>--exit\<close> (lines 109 to 123) runs beside the loop and is not
  part of the embedding.
\<close>

definition followSetup :: "TaskDefinition option \<Rightarrow> Task \<Rightarrow> setup_outcome" where
  "followSetup td task =
     (case deriveTaskID (TaskArn task) of
        Inl p \<Rightarrow> SetupPanic p
      | Inr tid \<Rightarrow>
          (case td of
             None \<Rightarrow> SetupPanic NilDereference
           | Some d \<Rightarrow>
               (case index (ContainerDefinitions d) 0 of
                  Inl p \<Rightarrow> SetupPanic p
                | Inr c \<Rightarrow>
                    (case LogConfig c of
                       None \<Rightarrow> SetupPanic NilDereference
                     | Some lc \<Rightarrow>
                         if StringValue (LogDriver lc) \<noteq> ''awslogs'' then SetupExit 0 []
                         else Follow \<lparr>taskID = tid,
                                logGroup = Options lc ''awslogs-group'',
                                logStreamName =
                                  StringValue (Options lc ''awslogs-stream-prefix'') @ ''/''
                                    @ StringValue (Name c) @ ''/'' @ tid\<rparr>))))"

text \<open>Lines 73 to 107, then the follow path.\<close>

definition taskDefinitionsRunSetup :: "run_env \<Rightarrow> string \<Rightarrow> setup_outcome" where
  "taskDefinitionsRunSetup E taskDefinitionFamily =
     (case DescribeTaskDefinition E taskDefinitionFamily of
        Inl e \<Rightarrow> SetupExit 1 [println e]
      | Inr td \<Rightarrow>
          (case (if revision E = [] then
                   (case td of None \<Rightarrow> Inl NilDereference
                    | Some d \<Rightarrow> Inr (FormatInt E (case Revision d of None \<Rightarrow> 0 | Some r \<Rightarrow> r)))
                 else Inr (revision E)) of
             Inl p \<Rightarrow> SetupPanic p
           | Inr revisionStr \<Rightarrow>
               (case RunTask E (cluster E) (taskDefinitionFamily @ '':'' @ revisionStr) of
                  Inl e \<Rightarrow> SetupExit 1 [println e]
                | Inr [] \<Rightarrow> SetupExit 1 [println ''task failed to run'']
                | Inr (task # _) \<Rightarrow>
                    if \<not> follow E then SetupExit 0 [] else followSetup td task)))"

subsection \<open>task-definitions run: the follow loop\<close>

text \<open>
  The variables the loop and its closures share: \<^verbatim>\<open>lastSeenTime\<close> (nil at first),
  \<^verbatim>\<open>seenEventIDs\<close> (a nil map at first, \<open>None\<close>), the start time of the log query
  \<^verbatim>\<open>cwInput\<close>, \<^verbatim>\<open>retryCount\<close>, and standard output.
\<close>

record follow_state =
  lastSeenTime :: "int option"
  seenEventIDs :: "(string \<rightharpoonup> bool) option"
  StartTime :: "int option"
  retryCount :: int
  stdout :: "string list"

definition init_state :: follow_state where
  "init_state = \<lparr>lastSeenTime = None, seenEventIDs = None, StartTime = None,
                 retryCount = 0, stdout = []\<rparr>"

definition retryLimit :: int where
  "retryLimit = 50"

definition clearSeenEventIds :: "follow_state \<Rightarrow> follow_state" where
  "clearSeenEventIds st = st\<lparr>seenEventIDs := Some Map.empty\<rparr>"

definition addSeenEventIDs :: "follow_state \<Rightarrow> string \<Rightarrow> panic + follow_state" where
  "addSeenEventIDs st i =
     (case seenEventIDs st of
        None \<Rightarrow> Inl NilMapWrite
      | Some m \<Rightarrow> Inr (st\<lparr>seenEventIDs := Some (m(i \<mapsto> True))\<rparr>))"

definition updateLastSeenTime :: "follow_state \<Rightarrow> int option \<Rightarrow> panic + follow_state" where
  "updateLastSeenTime st ts =
     (case lastSeenTime st of
        None \<Rightarrow> Inr (clearSeenEventIds (st\<lparr>lastSeenTime := ts\<rparr>))
      | Some l \<Rightarrow>
          (case ts of
             None \<Rightarrow> Inl NilDereference
           | Some t \<Rightarrow>
               if t > l then Inr (clearSeenEventIds (st\<lparr>lastSeenTime := ts\<rparr>))
               else Inr st))"

text \<open>\<^verbatim>\<open>_, seen := seenEventIDs[id]\<close>: reading a nil map finds nothing.\<close>

definition seen :: "follow_state \<Rightarrow> string \<Rightarrow> bool" where
  "seen st i = (case seenEventIDs st of None \<Rightarrow> False | Some m \<Rightarrow> m i \<noteq> None)"

text \<open>The body of the loop of \<^verbatim>\<open>handlePage\<close> (lines 166 to 170).\<close>

definition handleEvent :: "'f libs \<Rightarrow> 'f \<Rightarrow> follow_state \<Rightarrow> FilteredLogEvent \<Rightarrow> panic + follow_state" where
  "handleEvent L formatter st event =
     (case updateLastSeenTime st (Timestamp event) of
        Inl p \<Rightarrow> Inl p
      | Inr st1 \<Rightarrow>
          (case EventId event of
             None \<Rightarrow> Inl NilDereference
           | Some i \<Rightarrow>
               if \<not> seen st1 i then
                 addSeenEventIDs (st1\<lparr>stdout := stdout st1 @ [printEvent L formatter event]\<rparr>) i
               else Inr st1))"

fun handleEvents :: "'f libs \<Rightarrow> 'f \<Rightarrow> follow_state \<Rightarrow> FilteredLogEvent list \<Rightarrow> panic + follow_state" where
  "handleEvents L formatter st [] = Inr st"
| "handleEvents L formatter st (event # events) =
     (case handleEvent L formatter st event of
        Inl p \<Rightarrow> Inl p
      | Inr st1 \<Rightarrow> handleEvents L formatter st1 events)"

definition handlePage ::
  "'f libs \<Rightarrow> 'f \<Rightarrow> follow_state \<Rightarrow> FilterLogEventsOutput \<Rightarrow> bool \<Rightarrow> panic + (follow_state \<times> bool)" where
  "handlePage L formatter st page lastPage =
     (case handleEvents L formatter st (Events page) of
        Inl p \<Rightarrow> Inl p
      | Inr st1 \<Rightarrow> Inr (st1, \<not> lastPage))"

text \<open>
  The SDK's pager \<^verbatim>\<open>FilterLogEventsPages(input, fn)\<close>, for one query whose requests
  deliver \<open>pages\<close> and then, if \<open>err\<close> is not \<open>None\<close>, fail: \<open>fn\<close> is called on
  each page with the flag "this is the last page" (there is no further page and no
  failure to come), the paging stops when \<open>fn\<close> returns false, and the error of the
  failed request, if it was made, is returned.
\<close>

fun FilterLogEventsPages ::
  "(follow_state \<Rightarrow> FilterLogEventsOutput \<Rightarrow> bool \<Rightarrow> panic + (follow_state \<times> bool)) \<Rightarrow>
   follow_state \<Rightarrow> FilterLogEventsOutput list \<Rightarrow> string option \<Rightarrow>
   panic + (follow_state \<times> string option)" where
  "FilterLogEventsPages fn st [] err = Inr (st, err)"
| "FilterLogEventsPages fn st (page # pages) err =
     (case fn st page (pages = [] \<and> err = None) of
        Inl p \<Rightarrow> Inl p
      | Inr (st1, continue) \<Rightarrow>
          if continue then FilterLogEventsPages fn st1 pages err
          else Inr (st1, None))"

text \<open>
  What the services answer in one round of the loop: the pages and the error of the
  log query, and the answer of \<^verbatim>\<open>DescribeTasks\<close>.
\<close>

record poll =
  logPages :: "FilterLogEventsOutput list"
  logErr :: "string option"
  describeTasks :: "string + Task list"

text \<open>
  The three calls of \<^verbatim>\<open>os.Exit\<close> in the loop: line 184 (the retry limit of the log
  query), line 199 (an error of \<^verbatim>\<open>DescribeTasks\<close>) and line 204 (the task stopped).
\<close>

datatype exit_site = LogRetryLimit | DescribeTasksError | TaskStopped

fun exit_code :: "exit_site \<Rightarrow> int" where
  "exit_code LogRetryLimit = 1"
| "exit_code DescribeTasksError = 1"
| "exit_code TaskStopped = 0"

datatype outcome =
    Running follow_state
  | Exited exit_site follow_state
  | Panicked panic

text \<open>Lines 178 to 186.\<close>

definition queryLogs :: "'f libs \<Rightarrow> 'f \<Rightarrow> follow_state \<Rightarrow> poll \<Rightarrow> outcome" where
  "queryLogs L formatter st p =
     (case FilterLogEventsPages (handlePage L formatter) st (logPages p) (logErr p) of
        Inl pn \<Rightarrow> Panicked pn
      | Inr (st1, None) \<Rightarrow> Running st1
      | Inr (st1, Some e) \<Rightarrow>
          (let st2 = st1\<lparr>retryCount := retryCount st1 + 1\<rparr>
           in if retryCount st2 \<ge> retryLimit
              then Exited LogRetryLimit (st2\<lparr>stdout := stdout st2 @ [println e]\<rparr>)
              else Running st2))"

text \<open>Lines 188 to 190.\<close>

definition setStartTime :: "follow_state \<Rightarrow> follow_state" where
  "setStartTime st = (if lastSeenTime st \<noteq> None then st\<lparr>StartTime := lastSeenTime st\<rparr> else st)"

text \<open>Lines 192 to 205.\<close>

definition checkStatus :: "follow_state \<Rightarrow> poll \<Rightarrow> outcome" where
  "checkStatus st p =
     (case describeTasks p of
        Inl e \<Rightarrow> Exited DescribeTasksError (st\<lparr>stdout := stdout st @ [println e]\<rparr>)
      | Inr [] \<Rightarrow> Panicked IndexOutOfRange
      | Inr (t # _) \<Rightarrow>
          if StringValue (LastStatus t) = ''STOPPED'' then Exited TaskStopped st
          else Running st)"

definition iteration :: "'f libs \<Rightarrow> 'f \<Rightarrow> follow_state \<Rightarrow> poll \<Rightarrow> outcome" where
  "iteration L formatter st p =
     (case queryLogs L formatter st p of
        Running st1 \<Rightarrow> checkStatus (setStartTime st1) p
      | other \<Rightarrow> other)"

text \<open>The loop of lines 177 to 208, one round for each poll of the script.\<close>

fun follow_loop :: "'f libs \<Rightarrow> 'f \<Rightarrow> follow_state \<Rightarrow> poll list \<Rightarrow> outcome" where
  "follow_loop L formatter st [] = Running st"
| "follow_loop L formatter st (p # ps) =
     (case iteration L formatter st p of
        Running st1 \<Rightarrow> follow_loop L formatter st1 ps
      | other \<Rightarrow> other)"

text \<open>
  The whole of \<^verbatim>\<open>taskDefinitionsRunRun\<close>: the loop starts with its variables as
  declared in lines 139, 140 and 175, nothing printed yet.
\<close>

definition taskDefinitionsRunRun ::
  "'f libs \<Rightarrow> 'f \<Rightarrow> run_env \<Rightarrow> string \<Rightarrow> poll list \<Rightarrow> setup_outcome + outcome" where
  "taskDefinitionsRunRun L formatter E taskDefinitionFamily polls =
     (case taskDefinitionsRunSetup E taskDefinitionFamily of
        Follow params \<Rightarrow> Inr (follow_loop L formatter init_state polls)
      | other \<Rightarrow> Inl other)"

subsection \<open>Vocabulary of the properties\<close>

text \<open>A poll whose log query failed, and how many polls of a script did.\<close>

definition log_failed :: "poll \<Rightarrow> bool" where
  "log_failed p = (logErr p \<noteq> None)"

definition failures :: "poll list \<Rightarrow> nat" where
  "failures ps = length (filter log_failed ps)"

text \<open>
  The length of the longest run of consecutive failed log queries in a script;
  \<open>cur\<close> is the run in progress and \<open>best\<close> the longest one finished.
\<close>

fun failure_runs :: "nat \<Rightarrow> nat \<Rightarrow> poll list \<Rightarrow> nat" where
  "failure_runs cur best [] = max cur best"
| "failure_runs cur best (p # ps) =
     (if log_failed p then failure_runs (Suc cur) best ps
      else failure_runs 0 (max cur best) ps)"

definition longest_failure_run :: "poll list \<Rightarrow> nat" where
  "longest_failure_run ps = failure_runs 0 0 ps"

text \<open>The events a script delivers, in the order of delivery.\<close>

definition events_of_poll :: "poll \<Rightarrow> FilteredLogEvent list" where
  "events_of_poll p = concat (map Events (logPages p))"

definition events_of :: "poll list \<Rightarrow> FilteredLogEvent list" where
  "events_of ps = concat (map events_of_poll ps)"

text \<open>An event as the log service sends it: with a timestamp and an identifier.\<close>

definition wf_event :: "FilteredLogEvent \<Rightarrow> bool" where
  "wf_event e = (Timestamp e \<noteq> None \<and> EventId e \<noteq> None)"

fun timestamps :: "FilteredLogEvent list \<Rightarrow> int list" where
  "timestamps [] = []"
| "timestamps (e # es) =
     (case Timestamp e of None \<Rightarrow> timestamps es | Some t \<Rightarrow> t # timestamps es)"

text \<open>A poll in which the task is reported and has not stopped.\<close>

definition status_running :: "poll \<Rightarrow> bool" where
  "status_running p =
     (case describeTasks p of
        Inl e \<Rightarrow> False
      | Inr [] \<Rightarrow> False
      | Inr (t # _) \<Rightarrow> StringValue (LastStatus t) \<noteq> ''STOPPED'')"

text \<open>
  A poll that can end the loop only through the retry limit: its events are well
  formed and the task is reported as not stopped.
\<close>

definition quiet :: "poll \<Rightarrow> bool" where
  "quiet p = ((\<forall>e \<in> set (events_of_poll p). wf_event e) \<and> status_running p)"

text \<open>The map of seen identifiers exists once a watermark is set.\<close>

definition map_ready :: "follow_state \<Rightarrow> bool" where
  "map_ready st = (lastSeenTime st \<noteq> None \<longrightarrow> seenEventIDs st \<noteq> None)"

text \<open>
  Every identifier in the seen set belongs to an event of \<open>hist\<close> whose timestamp
  is the watermark.
\<close>

definition seen_at_watermark :: "follow_state \<Rightarrow> FilteredLogEvent list \<Rightarrow> bool" where
  "seen_at_watermark st hist =
     (\<forall>i. seen st i \<longrightarrow> (\<exists>e \<in> set hist. EventId e = Some i \<and> Timestamp e = lastSeenTime st))"

text \<open>The task ID as the specification describes it: what follows the last \<open>/\<close>.\<close>

definition after_last_slash :: "string \<Rightarrow> string" where
  "after_last_slash s = rev (takeWhile (\<lambda>c. c \<noteq> CHR ''/'') (rev s))"

subsection \<open>Sample inputs\<close>

text \<open>
  Two payloads that are JSON objects with the one key \<open>a\<close>, of value \<open>1\<close> and of
  value \<open>1e999\<close>; \<open>CHR 0x22\<close> is the double quote around the key.
\<close>

definition object_payload :: string where
  "object_payload = ''{'' @ [CHR 0x22] @ ''a'' @ [CHR 0x22] @ '':1}''"

definition huge_number_payload :: string where
  "huge_number_payload = ''{'' @ [CHR 0x22] @ ''a'' @ [CHR 0x22] @ '':1e999}''"

text \<open>
  Libraries for the examples: no colours, a constant date, a formatter that writes
  the keys of the object, a number conversion that rejects the literal \<open>1e999\<close>,
  and a decoder given by its answers on the payloads the examples use (an array,
  an empty object, the two objects above, and text that is not JSON).
\<close>

definition decode_table :: "string \<Rightarrow> json option" where
  "decode_table s =
     (if s = ''[1,2]'' then Some (JArray [JNumber ''1'', JNumber ''2''])
      else if s = ''{}'' then Some (JObject [])
      else if s = object_payload then Some (JObject [(''a'', JNumber ''1'')])
      else if s = huge_number_payload then Some (JObject [(''a'', JNumber ''1e999'')])
      else None)"

definition plain_libs :: "unit libs" where
  "plain_libs = \<lparr>red = (\<lambda>s. s), white = (\<lambda>s. s), formatRFC3339 = (\<lambda>t. ''date''),
                 jsonDecode = decode_table,
                 ParseFloat = (\<lambda>s. s \<noteq> ''1e999''),
                 Marshal = (\<lambda>f m. case m of None \<Rightarrow> ''null''
                                   | Some kvs \<Rightarrow> ''{'' @ concat (map fst kvs) @ ''}'')\<rparr>"

definition event :: "string \<Rightarrow> int \<Rightarrow> string \<Rightarrow> FilteredLogEvent" where
  "event i t m = \<lparr>EventId = Some i, LogStreamName = Some ''s'', Message = Some m, Timestamp = Some t\<rparr>"

definition running_task :: Task where
  "running_task = \<lparr>TaskArn = None, LastStatus = Some ''RUNNING''\<rparr>"

text \<open>A poll whose log query fails at once, and one that delivers a page of events.\<close>

definition failed_poll :: "string \<Rightarrow> poll" where
  "failed_poll e = \<lparr>logPages = [], logErr = Some e, describeTasks = Inr [running_task]\<rparr>"

definition ok_poll :: "FilteredLogEvent list \<Rightarrow> poll" where
  "ok_poll es = \<lparr>logPages = [\<lparr>Events = es\<rparr>], logErr = None, describeTasks = Inr [running_task]\<rparr>"

text \<open>
  Two scripts of polls. In the first, the event \<open>a\<close> of time 100 is delivered in
  the first poll and again in the second, followed by the event \<open>b\<close> of time 150.
  In the second, a poll delivers the event of time 150 before the one of time 100.
\<close>

definition redelivery :: "poll list" where
  "redelivery = [ok_poll [event ''a'' 100 ''hello''],
                 ok_poll [event ''a'' 100 ''hello'', event ''b'' 150 ''{}'']]"

definition out_of_order :: "poll list" where
  "out_of_order = [ok_poll [event ''b'' 150 ''hello'', event ''a'' 100 ''hello'']]"

text \<open>
  A command line with \<^verbatim>\<open>--follow\<close> and no \<^verbatim>\<open>--revision\<close>, and services that
  answer with the given task definition (of revision 1) and the given tasks.
\<close>

definition sample_env :: "TaskDefinition option \<Rightarrow> Task list \<Rightarrow> run_env" where
  "sample_env td tasks =
     \<lparr>revision = [], cluster = ''c'', follow = True, FormatInt = (\<lambda>n. ''1''),
      DescribeTaskDefinition = (\<lambda>family. Inr td),
      RunTask = (\<lambda>cl name. Inr tasks)\<rparr>"

definition awslogs_container :: ContainerDefinition where
  "awslogs_container =
     \<lparr>Name = Some ''web'',
      LogConfig = Some \<lparr>LogDriver = Some ''awslogs'',
                        Options = [''awslogs-group'' \<mapsto> ''g'', ''awslogs-stream-prefix'' \<mapsto> ''p'']\<rparr>\<rparr>"

section \<open>Properties\<close>

subsection \<open>clusters list: pagination\<close>

text \<open>
  The three lemmas follow the loop over a script that begins with pages which all
  carry a continuation token, from any loop state; \<open>tok\<close> is the local variable
  \<^verbatim>\<open>nextToken\<close>.
\<close>

lemma clustersListLoop_returned:
  "\<forall>pg \<in> set pages. NextToken pg \<noteq> None \<Longrightarrow> NextToken lst = None \<Longrightarrow>
   \<exists>st'. clustersListLoop tok st (map Inr pages @ Inr lst # rest) = Returned st'
     \<and> printed st' = printed st @ map (\<lambda>f. println (StringValue f)) (concat (map ClusterArns (pages @ [lst])))
     \<and> requests st' = requests st @ (if tok \<noteq> None then tok else inputNextToken st) # map NextToken pages"
proof (induction pages arbitrary: tok st)
  case Nil
  then show ?case by (simp add: Let_def)
next
  case (Cons pg pages)
  from Cons.prems obtain t where tk: "NextToken pg = Some t" by auto
  from Cons.prems have rest: "\<forall>pg \<in> set pages. NextToken pg \<noteq> None" by simp
  define st3 where "st3 = (if tok \<noteq> None then st\<lparr>inputNextToken := tok\<rparr> else st)
     \<lparr>requests := requests st @ [if tok \<noteq> None then tok else inputNextToken st],
      printed := printed st @ map (\<lambda>f. println (StringValue f)) (ClusterArns pg)\<rparr>"
  have step: "clustersListLoop tok st (map Inr (pg # pages) @ Inr lst # rest)
      = clustersListLoop (NextToken pg) st3 (map Inr pages @ Inr lst # rest)"
    using tk by (simp add: Let_def st3_def)
  from Cons.IH [OF rest Cons.prems(2), of "NextToken pg" st3] obtain st' where
    r: "clustersListLoop (NextToken pg) st3 (map Inr pages @ Inr lst # rest) = Returned st'"
    and p: "printed st' = printed st3 @ map (\<lambda>f. println (StringValue f)) (concat (map ClusterArns (pages @ [lst])))"
    and q: "requests st' = requests st3 @ (if NextToken pg \<noteq> None then NextToken pg else inputNextToken st3) # map NextToken pages"
    by blast
  show ?case using step r p q tk by (simp add: st3_def)
qed

lemma clustersListLoop_failed:
  "\<forall>pg \<in> set pages. NextToken pg \<noteq> None \<Longrightarrow>
   \<exists>st'. clustersListLoop tok st (map Inr pages @ Inl e # rest) = Failed 1 st'
     \<and> printed st' = printed st @ map (\<lambda>f. println (StringValue f)) (concat (map ClusterArns pages)) @ [println e]
     \<and> requests st' = requests st @ (if tok \<noteq> None then tok else inputNextToken st) # map NextToken pages"
proof (induction pages arbitrary: tok st)
  case Nil
  then show ?case by (simp add: Let_def)
next
  case (Cons pg pages)
  from Cons.prems obtain t where tk: "NextToken pg = Some t" by auto
  from Cons.prems have rest: "\<forall>pg \<in> set pages. NextToken pg \<noteq> None" by simp
  define st3 where "st3 = (if tok \<noteq> None then st\<lparr>inputNextToken := tok\<rparr> else st)
     \<lparr>requests := requests st @ [if tok \<noteq> None then tok else inputNextToken st],
      printed := printed st @ map (\<lambda>f. println (StringValue f)) (ClusterArns pg)\<rparr>"
  have step: "clustersListLoop tok st (map Inr (pg # pages) @ Inl e # rest)
      = clustersListLoop (NextToken pg) st3 (map Inr pages @ Inl e # rest)"
    using tk by (simp add: Let_def st3_def)
  from Cons.IH [OF rest, of "NextToken pg" st3] obtain st' where
    r: "clustersListLoop (NextToken pg) st3 (map Inr pages @ Inl e # rest) = Failed 1 st'"
    and p: "printed st' = printed st3 @ map (\<lambda>f. println (StringValue f)) (concat (map ClusterArns pages)) @ [println e]"
    and q: "requests st' = requests st3 @ (if NextToken pg \<noteq> None then NextToken pg else inputNextToken st3) # map NextToken pages"
    by blast
  show ?case using step r p q tk by (simp add: st3_def)
qed

lemma clustersListLoop_waiting:
  "\<forall>pg \<in> set pages. NextToken pg \<noteq> None \<Longrightarrow>
   \<exists>st'. clustersListLoop tok st (map Inr pages) = Waiting st'
     \<and> printed st' = printed st @ map (\<lambda>f. println (StringValue f)) (concat (map ClusterArns pages))
     \<and> requests st' = requests st @ take (length pages) ((if tok \<noteq> None then tok else inputNextToken st) # map NextToken pages)"
proof (induction pages arbitrary: tok st)
  case Nil
  then show ?case by (simp add: Let_def)
next
  case (Cons pg pages)
  from Cons.prems obtain t where tk: "NextToken pg = Some t" by auto
  from Cons.prems have rest: "\<forall>pg \<in> set pages. NextToken pg \<noteq> None" by simp
  define st3 where "st3 = (if tok \<noteq> None then st\<lparr>inputNextToken := tok\<rparr> else st)
     \<lparr>requests := requests st @ [if tok \<noteq> None then tok else inputNextToken st],
      printed := printed st @ map (\<lambda>f. println (StringValue f)) (ClusterArns pg)\<rparr>"
  have step: "clustersListLoop tok st (map Inr (pg # pages))
      = clustersListLoop (NextToken pg) st3 (map Inr pages)"
    using tk by (simp add: Let_def st3_def)
  from Cons.IH [OF rest, of "NextToken pg" st3] obtain st' where
    r: "clustersListLoop (NextToken pg) st3 (map Inr pages) = Waiting st'"
    and p: "printed st' = printed st3 @ map (\<lambda>f. println (StringValue f)) (concat (map ClusterArns pages))"
    and q: "requests st' = requests st3 @ take (length pages) ((if NextToken pg \<noteq> None then NextToken pg else inputNextToken st3) # map NextToken pages)"
    by blast
  show ?case using step r p q tk by (simp add: st3_def)
qed

text \<open>
  Claim C8. For a script of list-clusters responses whose first pages all carry a
  continuation token: if the next response carries none, the helper returns, having
  printed the identifiers of all these pages in page order and nothing else, and
  each request after the first carried the token of the response before it; if the
  next response is an error, the helper exits with status 1 right there, the error
  message printed last; and as long as every response carries a token the helper
  goes on asking.
\<close>

theorem clusters_list_pagination:
  assumes "\<forall>pg \<in> set pages. NextToken pg \<noteq> None"
  shows "(NextToken lst = None \<longrightarrow>
            (\<exists>st'. clustersListRun (map Inr pages @ Inr lst # rest) = Returned st'
               \<and> printed st' = map (\<lambda>f. println (StringValue f)) (concat (map ClusterArns (pages @ [lst])))
               \<and> requests st' = None # map NextToken pages))
       \<and> (\<exists>st'. clustersListRun (map Inr pages @ Inl e # rest) = Failed 1 st'
               \<and> printed st' = map (\<lambda>f. println (StringValue f)) (concat (map ClusterArns pages)) @ [println e]
               \<and> requests st' = None # map NextToken pages)
       \<and> (\<exists>st'. clustersListRun (map Inr pages) = Waiting st'
               \<and> printed st' = map (\<lambda>f. println (StringValue f)) (concat (map ClusterArns pages))
               \<and> requests st' = take (length pages) (None # map NextToken pages))"
  unfolding clustersListRun_def
  using clustersListLoop_returned [OF assms, of lst None "\<lparr>inputNextToken = None, requests = [], printed = []\<rparr>" rest]
        clustersListLoop_failed [OF assms, of None "\<lparr>inputNextToken = None, requests = [], printed = []\<rparr>" e rest]
        clustersListLoop_waiting [OF assms, of None "\<lparr>inputNextToken = None, requests = [], printed = []\<rparr>"]
  by simp


theorem clusters_list_pagination_witness:
  "NextToken \<lparr>ClusterArns = [Some ''a'', None], NextToken = Some ''t1''\<rparr> \<noteq> None
   \<and> (\<exists>st'. clustersListRun [Inr \<lparr>ClusterArns = [Some ''a'', None], NextToken = Some ''t1''\<rparr>,
                               Inr \<lparr>ClusterArns = [Some ''c''], NextToken = None\<rparr>,
                               Inr \<lparr>ClusterArns = [Some ''d''], NextToken = None\<rparr>] = Returned st'
          \<and> printed st' = [println ''a'', println [], println ''c'']
          \<and> requests st' = [None, Some ''t1''])
   \<and> (\<exists>st'. clustersListRun [Inr \<lparr>ClusterArns = [Some ''a'', None], NextToken = Some ''t1''\<rparr>,
                               Inl ''boom'',
                               Inr \<lparr>ClusterArns = [Some ''d''], NextToken = None\<rparr>] = Failed 1 st'
          \<and> printed st' = [println ''a'', println [], println ''boom'']
          \<and> requests st' = [None, Some ''t1''])
   \<and> (\<exists>st'. clustersListRun [Inr \<lparr>ClusterArns = [Some ''a'', None], NextToken = Some ''t1''\<rparr>] = Waiting st'
          \<and> printed st' = [println ''a'', println []]
          \<and> requests st' = [None])"
  using clusters_list_pagination
    [of "[\<lparr>ClusterArns = [Some ''a'', None], NextToken = Some ''t1''\<rparr>]"
        "\<lparr>ClusterArns = [Some ''c''], NextToken = None\<rparr>"
        "[Inr \<lparr>ClusterArns = [Some ''d''], NextToken = None\<rparr>]"
        "''boom''"]
  by (simp add: StringValue_def)

subsection \<open>task-definitions run: the task ID and the follow path\<close>

lemma strings_Split_not_Nil: "strings_Split s c \<noteq> []"
  by (induction s) (auto split: list.splits)

lemma length_strings_Split: "length (strings_Split s c) = Suc (length (filter (\<lambda>x. x = c) s))"
  by (induction s) (auto split: list.splits simp: strings_Split_not_Nil)

lemma strings_Split_has_second: "Suc 0 < length (strings_Split s c) \<longleftrightarrow> c \<in> set s"
  by (simp add: length_strings_Split filter_empty_conv)

lemma deriveTaskID_panics: "(\<exists>p. deriveTaskID arn = Inl p) \<longleftrightarrow> CHR ''/'' \<notin> set (StringValue arn)"
  by (auto simp: deriveTaskID_def index_def strings_Split_has_second)

text \<open>On an ARN with exactly one \<open>/\<close> the code and the description agree.\<close>

lemma deriveTaskID_one_slash:
  assumes "CHR ''/'' \<notin> set a" and "CHR ''/'' \<notin> set b"
  shows "deriveTaskID (Some (a @ ''/'' @ b)) = Inr b \<and> after_last_slash (a @ ''/'' @ b) = b"
proof -
  have nb: "strings_Split b CHR ''/'' = [b]" using assms(2)
    by (induction b) auto
  have "strings_Split (a @ ''/'' @ b) CHR ''/'' = [a, b]" using assms(1) nb
    by (induction a) auto
  moreover have "takeWhile (\<lambda>c. c \<noteq> CHR ''/'') (rev b @ ''/'' @ rev a) = rev b"
    using assms(2) by (auto simp: takeWhile_tail takeWhile_eq_all_conv)
  ultimately show ?thesis
    by (simp add: deriveTaskID_def index_def StringValue_def after_last_slash_def)
qed

text \<open>
  Claim C5. The task ID the follow loop uses is the second of the pieces of the task
  ARN between slashes. On an ARN of the form \<^verbatim>\<open>...:task/<cluster>/<id>\<close> it is the
  cluster name, while the substring after the last \<open>/\<close> is the identifier.
\<close>

theorem taskID_is_second_segment:
  "deriveTaskID (Some ''arn:aws:ecs:us-east-1:123456789012:task/default/1dc5c17a'') = Inr ''default''
   \<and> after_last_slash ''arn:aws:ecs:us-east-1:123456789012:task/default/1dc5c17a'' = ''1dc5c17a''"
  by (simp add: deriveTaskID_def index_def StringValue_def after_last_slash_def)

text \<open>
  Claim C10. When the task definition was described, a task was started and
  \<^verbatim>\<open>--follow\<close> is set, the command panics exactly when the task definition has no
  container definition, or its first container definition has no log configuration,
  or the ARN of the first task has no \<open>/\<close>.
\<close>

theorem follow_path_panics:
  assumes "DescribeTaskDefinition E family = Inr (Some d)"
    and "RunTask E (cluster E)
           (family @ '':'' @ (if revision E = []
                              then FormatInt E (case Revision d of None \<Rightarrow> 0 | Some r \<Rightarrow> r)
                              else revision E)) = Inr (task # tasks)"
    and "follow E"
  shows "(\<exists>p. taskDefinitionsRunSetup E family = SetupPanic p) \<longleftrightarrow>
         (ContainerDefinitions d = []
          \<or> (\<exists>c cs. ContainerDefinitions d = c # cs \<and> LogConfig c = None)
          \<or> CHR ''/'' \<notin> set (StringValue (TaskArn task)))"
proof -
  have run: "taskDefinitionsRunSetup E family = followSetup (Some d) task"
    using assms by (auto simp: taskDefinitionsRunSetup_def)
  show ?thesis
  proof (cases "deriveTaskID (TaskArn task)")
    case (Inl p)
    then have "CHR ''/'' \<notin> set (StringValue (TaskArn task))"
      using deriveTaskID_panics [of "TaskArn task"] by blast
    then show ?thesis using Inl run by (simp add: followSetup_def)
  next
    case (Inr tid)
    then have sl: "CHR ''/'' \<in> set (StringValue (TaskArn task))"
      using deriveTaskID_panics [of "TaskArn task"] by auto
    show ?thesis
    proof (cases "ContainerDefinitions d")
      case Nil
      then show ?thesis using Inr run by (simp add: followSetup_def index_def)
    next
      case (Cons c cs)
      then show ?thesis using Inr run sl
        by (cases "LogConfig c") (auto simp: followSetup_def index_def)
    qed
  qed
qed

theorem follow_path_panics_witness:
  "taskDefinitionsRunSetup
     (sample_env (Some \<lparr>Revision = Some 1, ContainerDefinitions = [awslogs_container]\<rparr>)
        [\<lparr>TaskArn = Some ''task-without-slash'', LastStatus = None\<rparr>]) ''web''
     = SetupPanic IndexOutOfRange
   \<and> taskDefinitionsRunSetup
     (sample_env (Some \<lparr>Revision = Some 1, ContainerDefinitions = []\<rparr>)
        [\<lparr>TaskArn = Some ''arn:task/1dc5c17a'', LastStatus = None\<rparr>]) ''web''
     = SetupPanic IndexOutOfRange
   \<and> taskDefinitionsRunSetup
     (sample_env (Some \<lparr>Revision = Some 1, ContainerDefinitions = [\<lparr>Name = Some ''web'', LogConfig = None\<rparr>]\<rparr>)
        [\<lparr>TaskArn = Some ''arn:task/1dc5c17a'', LastStatus = None\<rparr>]) ''web''
     = SetupPanic NilDereference
   \<and> taskDefinitionsRunSetup
     (sample_env (Some \<lparr>Revision = Some 1, ContainerDefinitions = [awslogs_container]\<rparr>)
        [\<lparr>TaskArn = Some ''arn:task/1dc5c17a'', LastStatus = None\<rparr>]) ''web''
     = Follow \<lparr>taskID = ''1dc5c17a'', logGroup = Some ''g'', logStreamName = ''p/web/1dc5c17a''\<rparr>"
  using follow_path_panics
    [of "sample_env (Some \<lparr>Revision = Some 1, ContainerDefinitions = [awslogs_container]\<rparr>)
           [\<lparr>TaskArn = Some ''task-without-slash'', LastStatus = None\<rparr>]"
        "''web''" "\<lparr>Revision = Some 1, ContainerDefinitions = [awslogs_container]\<rparr>"
        "\<lparr>TaskArn = Some ''task-without-slash'', LastStatus = None\<rparr>" "[]"]
  by (simp add: sample_env_def awslogs_container_def taskDefinitionsRunSetup_def followSetup_def
        deriveTaskID_def index_def StringValue_def)

subsection \<open>The follow loop: watermark and seen identifiers\<close>

text \<open>
  Claim C3. When an event is later than the watermark, the watermark becomes its
  timestamp and the seen set is emptied; so the event is rendered whatever the seen
  set held before, also when it held the event's own identifier, and afterwards the
  seen set holds this identifier only.
\<close>

theorem watermark_advance_clears_seen:
  assumes "lastSeenTime st = Some w" and "Timestamp e = Some t" and "w < t"
    and "EventId e = Some i"
  shows "updateLastSeenTime st (Timestamp e)
           = Inr (st\<lparr>lastSeenTime := Some t, seenEventIDs := Some Map.empty\<rparr>)
       \<and> handleEvent L formatter st e
           = Inr (st\<lparr>lastSeenTime := Some t, seenEventIDs := Some [i \<mapsto> True],
                     stdout := stdout st @ [printEvent L formatter e]\<rparr>)"
  using assms
  by (simp add: handleEvent_def updateLastSeenTime_def clearSeenEventIds_def seen_def
        addSeenEventIDs_def)

theorem watermark_advance_clears_seen_witness:
  "seen \<lparr>lastSeenTime = Some 100, seenEventIDs = Some [''a'' \<mapsto> True], StartTime = None,
         retryCount = 0, stdout = []\<rparr> ''a''
   \<and> handleEvent plain_libs ()
       \<lparr>lastSeenTime = Some 100, seenEventIDs = Some [''a'' \<mapsto> True], StartTime = None,
        retryCount = 0, stdout = []\<rparr> (event ''a'' 150 ''hello'')
     = Inr \<lparr>lastSeenTime = Some 150, seenEventIDs = Some [''a'' \<mapsto> True], StartTime = None,
            retryCount = 0, stdout = [''[date] (s) hello'' @ [CHR 0x0A]]\<rparr>"
proof -
  have "handleEvent plain_libs ()
       \<lparr>lastSeenTime = Some 100, seenEventIDs = Some [''a'' \<mapsto> True], StartTime = None,
        retryCount = 0, stdout = []\<rparr> (event ''a'' 150 ''hello'')
     = Inr \<lparr>lastSeenTime = Some 150, seenEventIDs = Some [''a'' \<mapsto> True], StartTime = None,
            retryCount = 0, stdout = [printEvent plain_libs () (event ''a'' 150 ''hello'')]\<rparr>"
    using watermark_advance_clears_seen
      [of "\<lparr>lastSeenTime = Some 100, seenEventIDs = Some [''a'' \<mapsto> True], StartTime = None,
            retryCount = 0, stdout = []\<rparr>" 100 "event ''a'' 150 ''hello''" 150 "''a''" plain_libs "()"]
    by (simp add: event_def)
  moreover have "printEvent plain_libs () (event ''a'' 150 ''hello'') = ''[date] (s) hello'' @ [CHR 0x0A]"
    by (simp add: event_def printEvent_def plain_libs_def json_Unmarshal_def
          decode_table_def object_payload_def huge_number_payload_def StringValue_def)
  ultimately show ?thesis by (simp add: seen_def)
qed

subsection \<open>Rendering a log event\<close>

text \<open>
  Claim C6, as amended. \<^verbatim>\<open>printEvent\<close> has no failure: it always writes one line,
  which begins with the timestamp and the stream name. The rest of the line is the
  raw message whenever decoding the message into the map gives an error: when the
  decoder rejects the text as JSON, when the text is JSON that is neither an
  object nor \<^verbatim>\<open>null\<close> (an array, a string, a number, a boolean), and when it is an
  object that holds, at any depth, a number that does not fit a \<^verbatim>\<open>float64\<close>. The
  rest of the line is the output of the colorjson formatter when the message is
  \<^verbatim>\<open>null\<close> or an object all of whose numbers fit.
\<close>

theorem printEvent_fallback:
  "(jsonDecode L (StringValue (Message e)) = None \<longrightarrow>
      printEvent L formatter e =
        ''['' @ red L (formatRFC3339 L (Timestamp e)) @ ''] (''
          @ white L (StringValue (LogStreamName e)) @ '') ''
          @ StringValue (Message e) @ [CHR 0x0A])
   \<and> (jsonDecode L (StringValue (Message e)) = Some v \<longrightarrow> v \<noteq> JNull \<longrightarrow>
        (\<forall>kvs. v \<noteq> JObject kvs) \<longrightarrow>
      printEvent L formatter e =
        ''['' @ red L (formatRFC3339 L (Timestamp e)) @ ''] (''
          @ white L (StringValue (LogStreamName e)) @ '') ''
          @ StringValue (Message e) @ [CHR 0x0A])
   \<and> (jsonDecode L (StringValue (Message e)) = Some (JObject kvs) \<longrightarrow>
        \<not> (\<forall>kv \<in> set kvs. numbersFit (ParseFloat L) (snd kv)) \<longrightarrow>
      printEvent L formatter e =
        ''['' @ red L (formatRFC3339 L (Timestamp e)) @ ''] (''
          @ white L (StringValue (LogStreamName e)) @ '') ''
          @ StringValue (Message e) @ [CHR 0x0A])
   \<and> (jsonDecode L (StringValue (Message e)) = Some (JObject kvs) \<longrightarrow>
        (\<forall>kv \<in> set kvs. numbersFit (ParseFloat L) (snd kv)) \<longrightarrow>
      printEvent L formatter e =
        ''['' @ red L (formatRFC3339 L (Timestamp e)) @ ''] (''
          @ white L (StringValue (LogStreamName e)) @ '') ''
          @ Marshal L formatter (Some kvs) @ [CHR 0x0A])
   \<and> (jsonDecode L (StringValue (Message e)) = Some JNull \<longrightarrow>
      printEvent L formatter e =
        ''['' @ red L (formatRFC3339 L (Timestamp e)) @ ''] (''
          @ white L (StringValue (LogStreamName e)) @ '') ''
          @ Marshal L formatter None @ [CHR 0x0A])"
  by (cases v) (simp_all add: printEvent_def json_Unmarshal_def Let_def)

lemma plain_libs_sel:
  "red plain_libs = (\<lambda>s. s)" "white plain_libs = (\<lambda>s. s)"
  "formatRFC3339 plain_libs = (\<lambda>t. ''date'')" "jsonDecode plain_libs = decode_table"
  "ParseFloat plain_libs = (\<lambda>s. s \<noteq> ''1e999'')"
  "Marshal plain_libs f None = ''null''"
  "Marshal plain_libs f (Some kvs) = ''{'' @ concat (map fst kvs) @ ''}''"
  by (simp_all add: plain_libs_def)

lemma decode_table_samples:
  "decode_table ''hello'' = None"
  "decode_table ''[1,2]'' = Some (JArray [JNumber ''1'', JNumber ''2''])"
  "decode_table object_payload = Some (JObject [(''a'', JNumber ''1'')])"
  "decode_table huge_number_payload = Some (JObject [(''a'', JNumber ''1e999'')])"
  by (simp_all add: decode_table_def object_payload_def huge_number_payload_def)

theorem printEvent_fallback_witness:
  "jsonDecode plain_libs ''hello'' = None
   \<and> printEvent plain_libs () (event ''a'' 100 ''hello'') = ''[date] (s) hello\<newline>''
   \<and> jsonDecode plain_libs ''[1,2]'' = Some (JArray [JNumber ''1'', JNumber ''2''])
   \<and> printEvent plain_libs () (event ''b'' 100 ''[1,2]'') = ''[date] (s) [1,2]\<newline>''
   \<and> jsonDecode plain_libs huge_number_payload = Some (JObject [(''a'', JNumber ''1e999'')])
   \<and> printEvent plain_libs () (event ''c'' 100 huge_number_payload)
        = ''[date] (s) '' @ huge_number_payload @ ''\<newline>''
   \<and> jsonDecode plain_libs object_payload = Some (JObject [(''a'', JNumber ''1'')])
   \<and> printEvent plain_libs () (event ''d'' 100 object_payload) = ''[date] (s) {a}\<newline>''
   \<and> ''[date] (s) {a}\<newline>'' \<noteq> ''[date] (s) '' @ object_payload @ ''\<newline>''"
proof -
  have d1: "jsonDecode plain_libs (StringValue (Message (event ''a'' 100 ''hello''))) = None"
    and d2: "jsonDecode plain_libs (StringValue (Message (event ''b'' 100 ''[1,2]'')))
               = Some (JArray [JNumber ''1'', JNumber ''2''])"
    and d3: "jsonDecode plain_libs (StringValue (Message (event ''c'' 100 huge_number_payload)))
               = Some (JObject [(''a'', JNumber ''1e999'')])"
    and d4: "jsonDecode plain_libs (StringValue (Message (event ''d'' 100 object_payload)))
               = Some (JObject [(''a'', JNumber ''1'')])"
    by (simp_all add: plain_libs_sel decode_table_samples event_def StringValue_def)
  have n3: "\<not> (\<forall>kv \<in> set [(''a'', JNumber ''1e999'')]. numbersFit (ParseFloat plain_libs) (snd kv))"
    and n4: "\<forall>kv \<in> set [(''a'', JNumber ''1'')]. numbersFit (ParseFloat plain_libs) (snd kv)"
    by (simp_all add: plain_libs_sel)
  have "printEvent plain_libs () (event ''a'' 100 ''hello'') = ''[date] (s) hello\<newline>''"
    using d1 printEvent_fallback [of plain_libs "event ''a'' 100 ''hello''" "()"]
    by (simp add: plain_libs_sel event_def StringValue_def)
  moreover have "printEvent plain_libs () (event ''b'' 100 ''[1,2]'') = ''[date] (s) [1,2]\<newline>''"
    using d2 printEvent_fallback [of plain_libs "event ''b'' 100 ''[1,2]''" "()"
            "JArray [JNumber ''1'', JNumber ''2'']"]
    by (simp add: plain_libs_sel event_def StringValue_def)
  moreover have "printEvent plain_libs () (event ''c'' 100 huge_number_payload)
        = ''[date] (s) '' @ huge_number_payload @ ''\<newline>''"
    using d3 n3 printEvent_fallback [of plain_libs "event ''c'' 100 huge_number_payload" "()" _
            "[(''a'', JNumber ''1e999'')]"]
    by (simp add: plain_libs_sel event_def StringValue_def)
  moreover have "printEvent plain_libs () (event ''d'' 100 object_payload) = ''[date] (s) {a}\<newline>''"
    using d4 n4 printEvent_fallback [of plain_libs "event ''d'' 100 object_payload" "()" _
            "[(''a'', JNumber ''1'')]"]
    by (simp add: plain_libs_sel event_def StringValue_def)
  moreover have "''[date] (s) {a}\<newline>'' \<noteq> ''[date] (s) '' @ object_payload @ ''\<newline>''"
    by (simp add: object_payload_def)
  ultimately show ?thesis
    by (simp add: plain_libs_sel decode_table_samples)
qed

text \<open>
  The claim as stated fails: the message \<^verbatim>\<open>[1,2]\<close> is valid JSON and is written
  as raw text, since decoding into a map rejects an array; and so is the object
  whose key \<open>a\<close> has the value \<open>1e999\<close>, a number that does not fit a
  \<^verbatim>\<open>float64\<close>.
\<close>

theorem valid_json_rendered_raw:
  "jsonDecode plain_libs ''[1,2]'' = Some (JArray [JNumber ''1'', JNumber ''2''])
   \<and> printEvent plain_libs () (event ''b'' 100 ''[1,2]'') = ''[date] (s) [1,2]\<newline>''
   \<and> jsonDecode plain_libs huge_number_payload = Some (JObject [(''a'', JNumber ''1e999'')])
   \<and> printEvent plain_libs () (event ''c'' 100 huge_number_payload)
        = ''[date] (s) '' @ huge_number_payload @ ''\<newline>''"
  by (simp add: plain_libs_sel decode_table_samples event_def StringValue_def printEvent_def
        json_Unmarshal_def)

subsection \<open>The follow loop: the structure of a run\<close>

lemma follow_loop_append:
  "follow_loop L formatter st (xs @ ys) =
     (case follow_loop L formatter st xs of
        Running st1 \<Rightarrow> follow_loop L formatter st1 ys
      | Exited x st1 \<Rightarrow> Exited x st1
      | Panicked p \<Rightarrow> Panicked p)"
  by (induction xs arbitrary: st) (auto split: outcome.splits)

lemma handleEvents_append:
  "handleEvents L formatter st (xs @ ys) =
     (case handleEvents L formatter st xs of
        Inl p \<Rightarrow> Inl p
      | Inr st1 \<Rightarrow> handleEvents L formatter st1 ys)"
  by (induction xs arbitrary: st) (auto split: sum.splits)

lemma pages_as_events:
  "FilterLogEventsPages (handlePage L formatter) st pages err =
     (case handleEvents L formatter st (concat (map Events pages)) of
        Inl p \<Rightarrow> Inl p
      | Inr st1 \<Rightarrow> Inr (st1, err))"
proof (induction pages arbitrary: st)
  case Nil
  show ?case by simp
next
  case (Cons page pages)
  show ?case
  proof (cases "handleEvents L formatter st (Events page)")
    case (Inl p)
    then show ?thesis by (simp add: handlePage_def handleEvents_append)
  next
    case (Inr st1)
    show ?thesis
    proof (cases "pages = [] \<and> err = None")
      case True
      then show ?thesis using Inr by (simp add: handlePage_def)
    next
      case False
      then show ?thesis using Inr Cons.IH [of st1]
        by (simp add: handlePage_def handleEvents_append)
    qed
  qed
qed

lemma queryLogs_events:
  "queryLogs L formatter st p =
     (case handleEvents L formatter st (events_of_poll p) of
        Inl pn \<Rightarrow> Panicked pn
      | Inr st1 \<Rightarrow>
          (case logErr p of
             None \<Rightarrow> Running st1
           | Some e \<Rightarrow>
               if 50 \<le> retryCount st1 + 1
               then Exited LogRetryLimit
                      (st1\<lparr>retryCount := retryCount st1 + 1, stdout := stdout st1 @ [println e]\<rparr>)
               else Running (st1\<lparr>retryCount := retryCount st1 + 1\<rparr>)))"
  by (simp add: queryLogs_def pages_as_events events_of_poll_def retryLimit_def Let_def
        split: sum.splits option.splits)

lemma handleEvent_keeps:
  "handleEvent L formatter st e = Inr st' \<Longrightarrow>
     retryCount st' = retryCount st \<and> StartTime st' = StartTime st"
  by (auto simp: handleEvent_def updateLastSeenTime_def clearSeenEventIds_def addSeenEventIDs_def
        split: option.splits if_splits sum.splits)

lemma handleEvents_keeps:
  "handleEvents L formatter st es = Inr st' \<Longrightarrow>
     retryCount st' = retryCount st \<and> StartTime st' = StartTime st"
proof (induction es arbitrary: st)
  case Nil
  then show ?case by simp
next
  case (Cons e es)
  then show ?case
    by (cases "handleEvent L formatter st e") (auto dest: handleEvent_keeps)
qed

lemma iteration_Running_count:
  assumes "iteration L formatter st p = Running st'"
  shows "retryCount st' = retryCount st + (if log_failed p then 1 else 0)"
proof -
  from assms obtain sa where q: "queryLogs L formatter st p = Running sa"
    and c: "checkStatus (setStartTime sa) p = Running st'"
    by (auto simp: iteration_def split: outcome.splits)
  from c have "st' = setStartTime sa"
    by (auto simp: checkStatus_def split: sum.splits list.splits if_splits)
  then have r: "retryCount st' = retryCount sa" by (simp add: setStartTime_def)
  from q obtain sb where h: "handleEvents L formatter st (events_of_poll p) = Inr sb"
    and sa: "sa = (if log_failed p then sb\<lparr>retryCount := retryCount sb + 1\<rparr> else sb)"
    by (auto simp: queryLogs_events log_failed_def split: sum.splits option.splits if_splits)
  from handleEvents_keeps [OF h] sa r show ?thesis by simp
qed

lemma follow_loop_Running_count:
  "follow_loop L formatter st polls = Running st' \<Longrightarrow>
     retryCount st' = retryCount st + int (failures polls)"
proof (induction polls arbitrary: st)
  case Nil
  then show ?case by (simp add: failures_def)
next
  case (Cons p ps)
  from Cons.prems obtain s1 where i: "iteration L formatter st p = Running s1"
    and l: "follow_loop L formatter s1 ps = Running st'"
    by (auto split: outcome.splits)
  from iteration_Running_count [OF i] Cons.IH [OF l] show ?case
    by (simp add: failures_def)
qed

lemma iteration_Exited_limit:
  assumes "iteration L formatter st p = Exited LogRetryLimit st'"
  shows "log_failed p \<and> retryCount st' = retryCount st + 1 \<and> 50 \<le> retryCount st'"
proof -
  have "queryLogs L formatter st p = Exited LogRetryLimit st'"
    using assms
    by (auto simp: iteration_def checkStatus_def split: outcome.splits sum.splits list.splits if_splits)
  then obtain sb where h: "handleEvents L formatter st (events_of_poll p) = Inr sb"
    and f: "log_failed p" and s: "retryCount st' = retryCount sb + 1" and b: "50 \<le> retryCount sb + 1"
    by (auto simp: queryLogs_events log_failed_def split: sum.splits option.splits if_splits)
  from handleEvents_keeps [OF h] f s b show ?thesis by simp
qed

lemma follow_loop_Exited_limit:
  "follow_loop L formatter st polls = Exited LogRetryLimit st' \<Longrightarrow>
     50 \<le> retryCount st' \<and> retryCount st' \<le> retryCount st + int (failures polls)"
proof (induction polls arbitrary: st)
  case Nil
  then show ?case by simp
next
  case (Cons p ps)
  show ?case
  proof (cases "iteration L formatter st p")
    case (Running s1)
    with Cons.prems have l: "follow_loop L formatter s1 ps = Exited LogRetryLimit st'" by simp
    from iteration_Running_count [OF Running] Cons.IH [OF l] show ?thesis
      by (auto simp: failures_def split: if_splits)
  next
    case (Exited x s1)
    with Cons.prems have "iteration L formatter st p = Exited LogRetryLimit st'" by simp
    from iteration_Exited_limit [OF this] show ?thesis by (simp add: failures_def)
  next
    case (Panicked pn)
    with Cons.prems show ?thesis by simp
  qed
qed


text \<open>Well-formed events never panic, and quiet polls end the loop only at the retry limit.\<close>

lemma handleEvent_wf:
  assumes "wf_event e" and "map_ready st"
  shows "\<exists>st'. handleEvent L formatter st e = Inr st' \<and> map_ready st'"
proof -
  from assms(1) obtain t i where t: "Timestamp e = Some t" and i: "EventId e = Some i"
    by (auto simp: wf_event_def)
  show ?thesis
  proof (cases "lastSeenTime st")
    case None
    then show ?thesis using t i
      by (simp add: handleEvent_def updateLastSeenTime_def clearSeenEventIds_def seen_def
            addSeenEventIDs_def map_ready_def)
  next
    case (Some w)
    with assms(2) obtain m where m: "seenEventIDs st = Some m" by (auto simp: map_ready_def)
    show ?thesis using Some t i m
      by (simp add: handleEvent_def updateLastSeenTime_def clearSeenEventIds_def seen_def
            addSeenEventIDs_def map_ready_def)
  qed
qed

lemma handleEvents_wf:
  "\<forall>e \<in> set es. wf_event e \<Longrightarrow> map_ready st \<Longrightarrow>
     \<exists>st'. handleEvents L formatter st es = Inr st' \<and> map_ready st'"
proof (induction es arbitrary: st)
  case Nil
  then show ?case by simp
next
  case (Cons e es)
  from Cons.prems have "wf_event e" by simp
  from handleEvent_wf [OF this Cons.prems(2), of L formatter] obtain s1 where
    h: "handleEvent L formatter st e = Inr s1" and r: "map_ready s1" by blast
  from Cons.prems have "\<forall>e \<in> set es. wf_event e" by simp
  from Cons.IH [OF this r] h show ?case by simp
qed

lemma iteration_quiet:
  assumes "quiet p" and "map_ready st"
  shows "if log_failed p \<and> 50 \<le> retryCount st + 1
         then \<exists>st'. iteration L formatter st p = Exited LogRetryLimit st'
         else \<exists>st'. iteration L formatter st p = Running st' \<and> map_ready st'"
proof -
  from assms have "\<forall>e \<in> set (events_of_poll p). wf_event e" by (simp add: quiet_def)
  from handleEvents_wf [OF this assms(2), of L formatter] obtain sb where
    h: "handleEvents L formatter st (events_of_poll p) = Inr sb" and r: "map_ready sb" by blast
  from handleEvents_keeps [OF h] have k: "retryCount sb = retryCount st" by simp
  from assms(1) obtain t ts where d: "describeTasks p = Inr (t # ts)"
    and s: "StringValue (LastStatus t) \<noteq> ''STOPPED''"
    by (auto simp: quiet_def status_running_def split: sum.splits list.splits)
  have c: "\<And>s. checkStatus s p = Running s" using d s by (simp add: checkStatus_def)
  have m: "\<And>s. map_ready s \<Longrightarrow> map_ready (setStartTime s)"
    by (simp add: map_ready_def setStartTime_def)
  have m': "\<And>s n. map_ready s \<Longrightarrow> map_ready (s\<lparr>retryCount := n\<rparr>)"
    by (simp add: map_ready_def)
  show ?thesis
  proof (cases "logErr p")
    case None
    then show ?thesis using h r c m
      by (simp add: iteration_def queryLogs_events log_failed_def)
  next
    case (Some e)
    then show ?thesis using h r c m m' k
      by (simp add: iteration_def queryLogs_events log_failed_def)
  qed
qed

lemma follow_loop_quiet:
  "\<forall>p \<in> set polls. quiet p \<Longrightarrow> map_ready st \<Longrightarrow> retryCount st < 50 \<Longrightarrow>
     (if retryCount st + int (failures polls) < 50
      then \<exists>st'. follow_loop L formatter st polls = Running st' \<and> map_ready st'
      else \<exists>st'. follow_loop L formatter st polls = Exited LogRetryLimit st')"
proof (induction polls arbitrary: st)
  case Nil
  then show ?case by (simp add: failures_def)
next
  case (Cons p ps)
  from Cons.prems have q: "quiet p" and qs: "\<forall>p \<in> set ps. quiet p" by simp_all
  note it = iteration_quiet [OF q Cons.prems(2), of L formatter]
  show ?case
  proof (cases "log_failed p \<and> 50 \<le> retryCount st + 1")
    case True
    with it obtain s1 where "iteration L formatter st p = Exited LogRetryLimit s1" by auto
    then show ?thesis using True by (simp add: failures_def)
  next
    case False
    with it obtain s1 where i: "iteration L formatter st p = Running s1" and r: "map_ready s1"
      by auto
    from iteration_Running_count [OF i]
    have c: "retryCount s1 = retryCount st + (if log_failed p then 1 else 0)" .
    with False Cons.prems(3) have b: "retryCount s1 < 50" by (auto split: if_splits)
    from Cons.IH [OF qs r b, of ] i c show ?thesis
      by (auto simp: failures_def split: if_splits)
  qed
qed

lemma map_ready_init: "map_ready init_state"
  by (simp add: map_ready_def init_state_def)

subsection \<open>The follow loop: errors\<close>

text \<open>
  Claim C1, as amended. A failed log query is only counted. From the start of the
  loop, an exit through the retry limit (status 1) happens only when the script
  holds 50 failed log queries in all; when nothing else ends the loop (the polls
  are quiet) it happens exactly when the script holds 50 failed log queries,
  consecutive or not, and with fewer (so after 49 failures and a success) the
  loop is still running.
\<close>

theorem log_retry_limit_counts_all_failures:
  "(follow_loop L formatter init_state polls = Exited LogRetryLimit st' \<longrightarrow> 50 \<le> failures polls)
   \<and> ((\<forall>p \<in> set polls. quiet p) \<longrightarrow> 50 \<le> failures polls \<longrightarrow>
        (\<exists>st1. follow_loop L formatter init_state polls = Exited LogRetryLimit st1))
   \<and> ((\<forall>p \<in> set polls. quiet p) \<longrightarrow> failures polls < 50 \<longrightarrow>
        (\<exists>st1. follow_loop L formatter init_state polls = Running st1))
   \<and> exit_code LogRetryLimit = 1"
proof -
  have a: "follow_loop L formatter init_state polls = Exited LogRetryLimit st' \<longrightarrow> 50 \<le> failures polls"
    using follow_loop_Exited_limit [of L formatter init_state polls st']
    by (auto simp: init_state_def)
  have r0: "retryCount init_state < 50" by (simp add: init_state_def)
  have z: "retryCount init_state = 0" by (simp add: init_state_def)
  have b: "(\<forall>p \<in> set polls. quiet p) \<longrightarrow> 50 \<le> failures polls \<longrightarrow>
        (\<exists>st1. follow_loop L formatter init_state polls = Exited LogRetryLimit st1)"
    using follow_loop_quiet [OF _ map_ready_init r0, of polls L formatter] z
    by (auto split: if_splits)
  have c: "(\<forall>p \<in> set polls. quiet p) \<longrightarrow> failures polls < 50 \<longrightarrow>
        (\<exists>st1. follow_loop L formatter init_state polls = Running st1)"
    using follow_loop_quiet [OF _ map_ready_init r0, of polls L formatter] z
    by (auto split: if_splits)
  from a b c show ?thesis by simp
qed

text \<open>
  Claim C9. The retry counter is cumulative: whenever the loop is still running
  after a script, the counter has grown by the number of failed log queries of the
  script, successful queries in between leaving it as it is. So, when nothing else
  ends the loop, 50 failed log queries in all, however interleaved with successful
  ones, end it through the retry limit with status 1.
\<close>

theorem retry_counter_never_reset:
  "(follow_loop L formatter st polls = Running st' \<longrightarrow>
      retryCount st' = retryCount st + int (failures polls))
   \<and> ((\<forall>p \<in> set polls. quiet p) \<longrightarrow> 50 \<le> failures polls \<longrightarrow>
        (\<exists>st1. follow_loop L formatter init_state polls = Exited LogRetryLimit st1
                \<and> exit_code LogRetryLimit = 1))"
proof -
  have r0: "retryCount init_state < 50" and z: "retryCount init_state = 0"
    by (simp_all add: init_state_def)
  have "(\<forall>p \<in> set polls. quiet p) \<longrightarrow> 50 \<le> failures polls \<longrightarrow>
        (\<exists>st1. follow_loop L formatter init_state polls = Exited LogRetryLimit st1)"
    using follow_loop_quiet [OF _ map_ready_init r0, of polls L formatter] z
    by (auto split: if_splits)
  then show ?thesis using follow_loop_Running_count [of L formatter st polls st'] by simp
qed


text \<open>The sample polls, step by step.\<close>

lemma log_failed_samples: "log_failed (failed_poll e)" "\<not> log_failed (ok_poll es)"
  by (simp_all add: log_failed_def failed_poll_def ok_poll_def)

lemma quiet_samples:
  "quiet (failed_poll e)" "quiet (ok_poll es) = (\<forall>e \<in> set es. wf_event e)"
  by (simp_all add: quiet_def events_of_poll_def status_running_def failed_poll_def ok_poll_def
        running_task_def StringValue_def)

lemma failures_replicate: "failures (replicate n (failed_poll e) @ ps) = n + failures ps"
  by (induction n) (simp_all add: failures_def log_failed_samples)

lemma failures_samples:
  "failures [] = 0" "failures (failed_poll e # ps) = Suc (failures ps)"
  "failures (ok_poll es # ps) = failures ps"
  by (simp_all add: failures_def log_failed_samples)

lemma failure_runs_replicate:
  "failure_runs cur best (replicate n (failed_poll e) @ ps) = failure_runs (cur + n) best ps"
  by (induction n arbitrary: cur) (simp_all add: log_failed_samples)

lemma iteration_failed_poll:
  "lastSeenTime st = None \<Longrightarrow> retryCount st + 1 < 50 \<Longrightarrow>
     iteration L formatter st (failed_poll e) = Running (st\<lparr>retryCount := retryCount st + 1\<rparr>)"
  by (simp add: iteration_def queryLogs_def failed_poll_def retryLimit_def checkStatus_def
        setStartTime_def running_task_def StringValue_def)

lemma iteration_failed_poll_limit:
  "50 \<le> retryCount st + 1 \<Longrightarrow>
     iteration L formatter st (failed_poll e)
       = Exited LogRetryLimit (st\<lparr>retryCount := retryCount st + 1, stdout := stdout st @ [println e]\<rparr>)"
  by (simp add: iteration_def queryLogs_def failed_poll_def retryLimit_def)

lemma iteration_ok_poll_empty:
  "lastSeenTime st = None \<Longrightarrow> iteration L formatter st (ok_poll []) = Running st"
  by (simp add: iteration_def queryLogs_def ok_poll_def handlePage_def checkStatus_def
        setStartTime_def running_task_def StringValue_def)

lemma follow_loop_failed_polls:
  "lastSeenTime st = None \<Longrightarrow> retryCount st + int n < 50 \<Longrightarrow>
     follow_loop L formatter st (replicate n (failed_poll e))
       = Running (st\<lparr>retryCount := retryCount st + int n\<rparr>)"
proof (induction n arbitrary: st)
  case 0
  then show ?case by simp
next
  case (Suc n)
  have "iteration L formatter st (failed_poll e) = Running (st\<lparr>retryCount := retryCount st + 1\<rparr>)"
    using Suc.prems by (intro iteration_failed_poll) simp_all
  moreover have "follow_loop L formatter (st\<lparr>retryCount := retryCount st + 1\<rparr>) (replicate n (failed_poll e))
      = Running (st\<lparr>retryCount := retryCount st + 1 + int n\<rparr>)"
    using Suc.IH [of "st\<lparr>retryCount := retryCount st + 1\<rparr>"] Suc.prems by simp
  ultimately show ?case by (simp add: add.assoc add.commute)
qed

text \<open>
  The claim C1 as stated fails: after 49 failures, a success and one more failure
  the loop exits through the retry limit, and the script has no 50 consecutive
  failures.
\<close>

theorem fifty_scattered_failures_exit:
  "follow_loop plain_libs () init_state (replicate 49 (failed_poll ''e'') @ [ok_poll [], failed_poll ''e''])
     = Exited LogRetryLimit (init_state\<lparr>retryCount := 50, stdout := [println ''e'']\<rparr>)
   \<and> longest_failure_run (replicate 49 (failed_poll ''e'') @ [ok_poll [], failed_poll ''e'']) = 49"
proof -
  have "follow_loop plain_libs () init_state (replicate 49 (failed_poll ''e''))
          = Running (init_state\<lparr>retryCount := 49\<rparr>)"
    using follow_loop_failed_polls [of init_state 49 plain_libs "()" "''e''"]
    by (simp add: init_state_def)
  moreover have "iteration plain_libs () (init_state\<lparr>retryCount := 49\<rparr>) (ok_poll [])
          = Running (init_state\<lparr>retryCount := 49\<rparr>)"
    by (rule iteration_ok_poll_empty) (simp add: init_state_def)
  moreover have "iteration plain_libs () (init_state\<lparr>retryCount := 49\<rparr>) (failed_poll ''e'')
          = Exited LogRetryLimit (init_state\<lparr>retryCount := 50, stdout := [println ''e'']\<rparr>)"
    using iteration_failed_poll_limit [of "init_state\<lparr>retryCount := 49\<rparr>" plain_libs "()" "''e''"]
    by (simp add: init_state_def)
  ultimately have "follow_loop plain_libs () init_state
       (replicate 49 (failed_poll ''e'') @ [ok_poll [], failed_poll ''e''])
     = Exited LogRetryLimit (init_state\<lparr>retryCount := 50, stdout := [println ''e'']\<rparr>)"
    by (simp add: follow_loop_append)
  moreover have "longest_failure_run (replicate 49 (failed_poll ''e'') @ [ok_poll [], failed_poll ''e'']) = 49"
    by (simp add: longest_failure_run_def failure_runs_replicate log_failed_samples)
  ultimately show ?thesis by simp
qed

theorem log_retry_limit_counts_all_failures_witness:
  "failures (replicate 49 (failed_poll ''e'') @ [ok_poll []]) = 49
   \<and> (\<exists>st1. follow_loop plain_libs () init_state (replicate 49 (failed_poll ''e'') @ [ok_poll []])
               = Running st1)
   \<and> failures (replicate 50 (failed_poll ''e'')) = 50
   \<and> (\<exists>st1. follow_loop plain_libs () init_state (replicate 50 (failed_poll ''e''))
               = Exited LogRetryLimit st1)"
proof -
  have f1: "failures (replicate 49 (failed_poll ''e'') @ [ok_poll []]) = 49"
    by (simp add: failures_replicate failures_samples)
  have f2: "failures (replicate 50 (failed_poll ''e'')) = 50"
    using failures_replicate [of 50 "''e''" "[]"] by (simp add: failures_samples)
  have q1: "\<forall>p \<in> set (replicate 49 (failed_poll ''e'') @ [ok_poll []]). quiet p"
    by (auto simp: quiet_samples)
  have q2: "\<forall>p \<in> set (replicate 50 (failed_poll ''e'')). quiet p"
    by (auto simp: quiet_samples)
  have "\<exists>st1. follow_loop plain_libs () init_state (replicate 49 (failed_poll ''e'') @ [ok_poll []])
               = Running st1"
    using log_retry_limit_counts_all_failures
            [of plain_libs "()" "replicate 49 (failed_poll ''e'') @ [ok_poll []]"] f1 q1
    by simp
  moreover have "\<exists>st1. follow_loop plain_libs () init_state (replicate 50 (failed_poll ''e''))
               = Exited LogRetryLimit st1"
    using log_retry_limit_counts_all_failures
            [of plain_libs "()" "replicate 50 (failed_poll ''e'')"] f2 q2
    by simp
  ultimately show ?thesis using f1 f2 by simp
qed

lemma failures_interleaved:
  "failures (concat (replicate n [failed_poll e, ok_poll es])) = n"
  by (induction n) (simp_all add: failures_samples)

theorem retry_counter_never_reset_witness:
  "failures (concat (replicate 50 [failed_poll ''e'', ok_poll []])) = 50
   \<and> (\<exists>st1. follow_loop plain_libs () init_state (concat (replicate 50 [failed_poll ''e'', ok_poll []]))
               = Exited LogRetryLimit st1 \<and> exit_code LogRetryLimit = 1)
   \<and> follow_loop plain_libs () init_state [failed_poll ''e'', ok_poll [], failed_poll ''e'']
       = Running (init_state\<lparr>retryCount := 2\<rparr>)
   \<and> retryCount (init_state\<lparr>retryCount := 2\<rparr>)
       = retryCount init_state + int (failures [failed_poll ''e'', ok_poll [], failed_poll ''e''])"
proof -
  have f: "failures (concat (replicate 50 [failed_poll ''e'', ok_poll []])) = 50"
    by (rule failures_interleaved)
  have q: "\<forall>p \<in> set (concat (replicate 50 [failed_poll ''e'', ok_poll []])). quiet p"
    by (auto simp: quiet_samples)
  have a: "\<exists>st1. follow_loop plain_libs () init_state (concat (replicate 50 [failed_poll ''e'', ok_poll []]))
               = Exited LogRetryLimit st1 \<and> exit_code LogRetryLimit = 1"
    using retry_counter_never_reset
            [of plain_libs "()" init_state "concat (replicate 50 [failed_poll ''e'', ok_poll []])"] f q
    by simp
  have r: "follow_loop plain_libs () init_state [failed_poll ''e'', ok_poll [], failed_poll ''e'']
       = Running (init_state\<lparr>retryCount := 2\<rparr>)"
    by (simp add: iteration_failed_poll iteration_ok_poll_empty init_state_def)
  have "retryCount (init_state\<lparr>retryCount := 2\<rparr>)
       = retryCount init_state + int (failures [failed_poll ''e'', ok_poll [], failed_poll ''e''])"
    using r retry_counter_never_reset
            [of plain_libs "()" init_state "[failed_poll ''e'', ok_poll [], failed_poll ''e'']"
                "init_state\<lparr>retryCount := 2\<rparr>"]
    by simp
  with f a r show ?thesis by simp
qed

text \<open>
  Claim C7. In any round the loop reaches, whatever came before, if the log query
  of the round does not end the process, an error of the task-status query ends
  it at once: the message is printed and the exit status is 1.
\<close>

theorem status_error_is_fatal:
  assumes "follow_loop L formatter st pre = Running st1"
    and "queryLogs L formatter st1 p = Running st2"
    and "describeTasks p = Inl e"
  shows "follow_loop L formatter st (pre @ p # rest)
           = Exited DescribeTasksError
               ((setStartTime st2)\<lparr>stdout := stdout st2 @ [println e]\<rparr>)
       \<and> exit_code DescribeTasksError = 1"
  using assms
  by (simp add: follow_loop_append iteration_def checkStatus_def setStartTime_def)

theorem status_error_is_fatal_witness:
  "follow_loop plain_libs () init_state [failed_poll ''x''] = Running (init_state\<lparr>retryCount := 1\<rparr>)
   \<and> queryLogs plain_libs () (init_state\<lparr>retryCount := 1\<rparr>)
        \<lparr>logPages = [], logErr = None, describeTasks = Inl ''denied''\<rparr>
       = Running (init_state\<lparr>retryCount := 1\<rparr>)
   \<and> follow_loop plain_libs () init_state
        ([failed_poll ''x''] @ \<lparr>logPages = [], logErr = None, describeTasks = Inl ''denied''\<rparr> # [ok_poll []])
       = Exited DescribeTasksError (init_state\<lparr>retryCount := 1, stdout := [println ''denied'']\<rparr>)
   \<and> exit_code DescribeTasksError = 1"
proof -
  have a: "follow_loop plain_libs () init_state [failed_poll ''x''] = Running (init_state\<lparr>retryCount := 1\<rparr>)"
    by (simp add: iteration_failed_poll init_state_def)
  have b: "queryLogs plain_libs () (init_state\<lparr>retryCount := 1\<rparr>)
        \<lparr>logPages = [], logErr = None, describeTasks = Inl ''denied''\<rparr>
       = Running (init_state\<lparr>retryCount := 1\<rparr>)"
    by (simp add: queryLogs_def)
  have c: "describeTasks \<lparr>logPages = [], logErr = None, describeTasks = Inl ''denied''\<rparr> = Inl ''denied''"
    by simp
  from status_error_is_fatal [OF a b c, of "[ok_poll []]"] a b show ?thesis
    by (simp add: setStartTime_def init_state_def)
qed

subsection \<open>The follow loop: the events of a run\<close>

text \<open>
  Handling events reads and writes the watermark, the seen set and the output only;
  a run that is still going has handled, in order, all the events of its script.
\<close>

lemma handleEvent_frame:
  "handleEvent L formatter (st\<lparr>retryCount := r, StartTime := s\<rparr>) e =
     (case handleEvent L formatter st e of
        Inl p \<Rightarrow> Inl p
      | Inr s1 \<Rightarrow> Inr (s1\<lparr>retryCount := r, StartTime := s\<rparr>))"
  by (simp add: handleEvent_def updateLastSeenTime_def clearSeenEventIds_def addSeenEventIDs_def
        seen_def split: option.splits)

lemma handleEvents_frame:
  "handleEvents L formatter (st\<lparr>retryCount := r, StartTime := s\<rparr>) es =
     (case handleEvents L formatter st es of
        Inl p \<Rightarrow> Inl p
      | Inr s1 \<Rightarrow> Inr (s1\<lparr>retryCount := r, StartTime := s\<rparr>))"
proof (induction es arbitrary: st)
  case Nil
  show ?case by simp
next
  case (Cons e es)
  show ?case
    by (cases "handleEvent L formatter st e") (simp_all add: handleEvent_frame Cons.IH)
qed

lemma iteration_Running_events:
  assumes "iteration L formatter st p = Running st'"
  shows "\<exists>sb. handleEvents L formatter st (events_of_poll p) = Inr sb
            \<and> st' = sb\<lparr>retryCount := retryCount st', StartTime := StartTime st'\<rparr>"
proof -
  from assms obtain sa where q: "queryLogs L formatter st p = Running sa"
    and c: "checkStatus (setStartTime sa) p = Running st'"
    by (auto simp: iteration_def split: outcome.splits)
  from c have e: "st' = setStartTime sa"
    by (auto simp: checkStatus_def split: sum.splits list.splits if_splits)
  from q obtain sb where h: "handleEvents L formatter st (events_of_poll p) = Inr sb"
    and sa: "sa = sb \<or> sa = sb\<lparr>retryCount := retryCount sb + 1\<rparr>"
    by (auto simp: queryLogs_events split: sum.splits option.splits if_splits)
  from sa e have "st' = sb\<lparr>retryCount := retryCount st', StartTime := StartTime st'\<rparr>"
    by (auto simp: setStartTime_def)
  with h show ?thesis by blast
qed

lemma follow_loop_Running_events:
  "follow_loop L formatter st polls = Running st' \<Longrightarrow>
     \<exists>sb. handleEvents L formatter st (events_of polls) = Inr sb
        \<and> st' = sb\<lparr>retryCount := retryCount st', StartTime := StartTime st'\<rparr>"
proof (induction polls arbitrary: st)
  case Nil
  then show ?case by (simp add: events_of_def)
next
  case (Cons p ps)
  from Cons.prems obtain s1 where i: "iteration L formatter st p = Running s1"
    and l: "follow_loop L formatter s1 ps = Running st'"
    by (auto split: outcome.splits)
  from iteration_Running_events [OF i] obtain sb where
    hb: "handleEvents L formatter st (events_of_poll p) = Inr sb"
    and s1: "s1 = sb\<lparr>retryCount := retryCount s1, StartTime := StartTime s1\<rparr>" by blast
  from Cons.IH [OF l] obtain sc where
    hc: "handleEvents L formatter s1 (events_of ps) = Inr sc"
    and st': "st' = sc\<lparr>retryCount := retryCount st', StartTime := StartTime st'\<rparr>" by blast
  from hc s1 have "handleEvents L formatter (sb\<lparr>retryCount := retryCount s1, StartTime := StartTime s1\<rparr>)
      (events_of ps) = Inr sc" by simp
  then obtain sd where hd: "handleEvents L formatter sb (events_of ps) = Inr sd"
    and sc: "sc = sd\<lparr>retryCount := retryCount s1, StartTime := StartTime s1\<rparr>"
    by (auto simp: handleEvents_frame split: sum.splits)
  have "handleEvents L formatter st (events_of (p # ps)) = Inr sd"
    using hb hd by (simp add: events_of_def handleEvents_append)
  moreover have "st' = sd\<lparr>retryCount := retryCount st', StartTime := StartTime st'\<rparr>"
    using st' sc by simp
  ultimately show ?case by blast
qed

lemma handleEvent_watermark:
  assumes "Timestamp e = Some t" and "handleEvent L formatter st e = Inr st'"
  shows "lastSeenTime st' = Some (case lastSeenTime st of None \<Rightarrow> t | Some w \<Rightarrow> max w t)"
  using assms
  by (auto simp: handleEvent_def updateLastSeenTime_def clearSeenEventIds_def addSeenEventIDs_def
        split: option.splits if_splits)

lemma handleEvents_watermark:
  "\<forall>e \<in> set es. wf_event e \<Longrightarrow> handleEvents L formatter st es = Inr st' \<Longrightarrow>
     set_option (lastSeenTime st') \<subseteq> set (timestamps es) \<union> set_option (lastSeenTime st)
     \<and> (\<forall>t \<in> set (timestamps es) \<union> set_option (lastSeenTime st).
           \<exists>m. lastSeenTime st' = Some m \<and> t \<le> m)"
proof (induction es arbitrary: st)
  case Nil
  then show ?case by auto
next
  case (Cons e es)
  from Cons.prems(1) obtain t where t: "Timestamp e = Some t" by (auto simp: wf_event_def)
  from Cons.prems(2) obtain s1 where h: "handleEvent L formatter st e = Inr s1"
    and hs: "handleEvents L formatter s1 es = Inr st'"
    by (auto split: sum.splits)
  from handleEvent_watermark [OF t h]
  have w1: "lastSeenTime s1 = Some (case lastSeenTime st of None \<Rightarrow> t | Some w \<Rightarrow> max w t)" .
  from Cons.prems(1) have "\<forall>e \<in> set es. wf_event e" by simp
  from Cons.IH [OF this hs]
  have a: "set_option (lastSeenTime st') \<subseteq> set (timestamps es) \<union> set_option (lastSeenTime s1)"
    and b: "\<forall>t \<in> set (timestamps es) \<union> set_option (lastSeenTime s1).
              \<exists>m. lastSeenTime st' = Some m \<and> t \<le> m" by simp_all
  show ?case
  proof (cases "lastSeenTime st")
    case None
    with w1 a b t show ?thesis by auto
  next
    case (Some w)
    with w1 have w1': "lastSeenTime s1 = Some (max w t)" by simp
    from b w1' obtain m where m: "lastSeenTime st' = Some m" and mx: "max w t \<le> m" by auto
    from a w1' have "set_option (lastSeenTime st') \<subseteq> set (timestamps (e # es)) \<union> set_option (lastSeenTime st)"
      using t Some by (auto simp: max_def split: if_splits)
    moreover have "\<forall>u \<in> set (timestamps (e # es)) \<union> set_option (lastSeenTime st).
           \<exists>m. lastSeenTime st' = Some m \<and> u \<le> m"
      using b m mx t Some by auto
    ultimately show ?thesis by blast
  qed
qed

lemma timestamps_wf: "\<forall>e \<in> set es. wf_event e \<Longrightarrow> length (timestamps es) = length es"
  by (induction es) (auto simp: wf_event_def)

lemma handleEvents_watermark_Max:
  assumes "\<forall>e \<in> set es. wf_event e" and "handleEvents L formatter st es = Inr st'"
    and "lastSeenTime st = None" and "es \<noteq> []"
  shows "lastSeenTime st' = Some (Max (set (timestamps es)))"
proof -
  from handleEvents_watermark [OF assms(1,2)] assms(3)
  have a: "set_option (lastSeenTime st') \<subseteq> set (timestamps es)"
    and b: "\<forall>t \<in> set (timestamps es). \<exists>m. lastSeenTime st' = Some m \<and> t \<le> m" by simp_all
  from timestamps_wf [OF assms(1)] assms(4) have "timestamps es \<noteq> []" by auto
  then obtain t where "t \<in> set (timestamps es)" by (cases "timestamps es") auto
  with b obtain m where m: "lastSeenTime st' = Some m" by blast
  with a have "m \<in> set (timestamps es)" by simp
  moreover from b m have "\<forall>t \<in> set (timestamps es). t \<le> m" by auto
  ultimately have "Max (set (timestamps es)) = m" by (intro Max_eqI) auto
  with m show ?thesis by simp
qed

lemma handleEvent_duplicate:
  assumes "lastSeenTime st = Some w" and "Timestamp e = Some t" and "t \<le> w"
    and "EventId e = Some i" and "seen st i"
  shows "handleEvent L formatter st e = Inr st"
  using assms by (simp add: handleEvent_def updateLastSeenTime_def)

text \<open>
  Claim C2. When the loop, started afresh, has gone through a script that delivered
  events (each with a timestamp and an identifier), over any number of pages and
  rounds and in any order, in particular in increasing order of time, the watermark
  is the largest timestamp delivered. And an event that is not later than the
  watermark and whose identifier is in the seen set is skipped: the state, with
  the output, is left as it was.
\<close>

theorem watermark_is_max_and_no_duplicates:
  "((\<forall>e \<in> set (events_of polls). wf_event e) \<longrightarrow>
      follow_loop L formatter init_state polls = Running st' \<longrightarrow> events_of polls \<noteq> [] \<longrightarrow>
      lastSeenTime st' = Some (Max (set (timestamps (events_of polls)))))
   \<and> (lastSeenTime st = Some w \<longrightarrow> Timestamp e = Some t \<longrightarrow> t \<le> w \<longrightarrow>
      EventId e = Some i \<longrightarrow> seen st i \<longrightarrow>
      handleEvent L formatter st e = Inr st)"
proof -
  have "lastSeenTime st' = Some (Max (set (timestamps (events_of polls))))"
    if wf: "\<forall>e \<in> set (events_of polls). wf_event e"
      and run: "follow_loop L formatter init_state polls = Running st'"
      and ne: "events_of polls \<noteq> []"
  proof -
    from follow_loop_Running_events [OF run] obtain sb where
      h: "handleEvents L formatter init_state (events_of polls) = Inr sb"
      and s: "st' = sb\<lparr>retryCount := retryCount st', StartTime := StartTime st'\<rparr>" by blast
    have "lastSeenTime init_state = None" by (simp add: init_state_def)
    from handleEvents_watermark_Max [OF wf h this ne]
    have "lastSeenTime sb = Some (Max (set (timestamps (events_of polls))))" .
    moreover from arg_cong [OF s, of lastSeenTime] have "lastSeenTime st' = lastSeenTime sb"
      by simp
    ultimately show ?thesis by simp
  qed
  then show ?thesis using handleEvent_duplicate [of st w e t i L formatter] by blast
qed


lemma printEvent_samples:
  "printEvent plain_libs () (event i t ''hello'') = ''[date] (s) hello'' @ [CHR 0x0A]"
  "printEvent plain_libs () (event i t ''{}'') = ''[date] (s) {}'' @ [CHR 0x0A]"
  by (simp_all add: printEvent_def event_def json_Unmarshal_def plain_libs_sel decode_table_def object_payload_def huge_number_payload_def
        StringValue_def)

lemma event_sel:
  "EventId (event i t m) = Some i" "Timestamp (event i t m) = Some t" "wf_event (event i t m)"
  by (simp_all add: event_def wf_event_def)

lemma iteration_ok_poll:
  "handleEvents L formatter st es = Inr st1 \<Longrightarrow>
     iteration L formatter st (ok_poll es) = Running (setStartTime st1)"
  by (simp add: iteration_def queryLogs_events events_of_poll_def ok_poll_def checkStatus_def
        running_task_def StringValue_def)

lemma redelivery_run:
  "follow_loop plain_libs () init_state redelivery
     = Running \<lparr>lastSeenTime = Some 150, seenEventIDs = Some [''b'' \<mapsto> True], StartTime = Some 150,
                retryCount = 0,
                stdout = [''[date] (s) hello\<newline>'', ''[date] (s) {}\<newline>'']\<rparr>"
proof -
  have 1: "handleEvents plain_libs () init_state [event ''a'' 100 ''hello'']
     = Inr \<lparr>lastSeenTime = Some 100, seenEventIDs = Some [''a'' \<mapsto> True], StartTime = None,
            retryCount = 0, stdout = [''[date] (s) hello\<newline>'']\<rparr>"
    by (simp add: handleEvent_def updateLastSeenTime_def clearSeenEventIds_def addSeenEventIDs_def
          seen_def event_sel printEvent_samples init_state_def)
  have 2: "handleEvents plain_libs ()
       \<lparr>lastSeenTime = Some 100, seenEventIDs = Some [''a'' \<mapsto> True], StartTime = Some 100,
            retryCount = 0, stdout = [''[date] (s) hello\<newline>'']\<rparr>
       [event ''a'' 100 ''hello'', event ''b'' 150 ''{}'']
     = Inr \<lparr>lastSeenTime = Some 150, seenEventIDs = Some [''b'' \<mapsto> True], StartTime = Some 100,
            retryCount = 0,
            stdout = [''[date] (s) hello\<newline>'', ''[date] (s) {}\<newline>'']\<rparr>"
    by (simp add: handleEvent_def updateLastSeenTime_def clearSeenEventIds_def addSeenEventIDs_def
          seen_def event_sel printEvent_samples)
  have i1: "iteration plain_libs () init_state (ok_poll [event ''a'' 100 ''hello''])
     = Running \<lparr>lastSeenTime = Some 100, seenEventIDs = Some [''a'' \<mapsto> True], StartTime = Some 100,
            retryCount = 0, stdout = [''[date] (s) hello\<newline>'']\<rparr>"
    using iteration_ok_poll [OF 1] by (simp add: setStartTime_def)
  have i2: "iteration plain_libs ()
       \<lparr>lastSeenTime = Some 100, seenEventIDs = Some [''a'' \<mapsto> True], StartTime = Some 100,
            retryCount = 0, stdout = [''[date] (s) hello\<newline>'']\<rparr>
       (ok_poll [event ''a'' 100 ''hello'', event ''b'' 150 ''{}''])
     = Running \<lparr>lastSeenTime = Some 150, seenEventIDs = Some [''b'' \<mapsto> True], StartTime = Some 150,
                retryCount = 0,
                stdout = [''[date] (s) hello\<newline>'', ''[date] (s) {}\<newline>'']\<rparr>"
    using iteration_ok_poll [OF 2] by (simp add: setStartTime_def)
  show ?thesis
    by (simp add: redelivery_def i1 i2)
qed

lemma events_of_samples:
  "events_of [] = []" "events_of (ok_poll es # ps) = es @ events_of ps"
  "events_of (failed_poll e # ps) = events_of ps"
  by (simp_all add: events_of_def events_of_poll_def ok_poll_def failed_poll_def)

lemma timestamps_event: "timestamps (event i t m # es) = t # timestamps es"
  by (simp add: event_sel)

theorem watermark_is_max_and_no_duplicates_witness:
  "follow_loop plain_libs () init_state redelivery
     = Running \<lparr>lastSeenTime = Some 150, seenEventIDs = Some [''b'' \<mapsto> True], StartTime = Some 150,
                retryCount = 0,
                stdout = [''[date] (s) hello\<newline>'', ''[date] (s) {}\<newline>'']\<rparr>
   \<and> Some (Max (set (timestamps (events_of redelivery)))) = Some 150
   \<and> handleEvent plain_libs ()
        \<lparr>lastSeenTime = Some 150, seenEventIDs = Some [''b'' \<mapsto> True], StartTime = Some 150,
         retryCount = 0,
         stdout = [''[date] (s) hello\<newline>'', ''[date] (s) {}\<newline>'']\<rparr>
        (event ''b'' 150 ''{}'')
     = Inr \<lparr>lastSeenTime = Some 150, seenEventIDs = Some [''b'' \<mapsto> True], StartTime = Some 150,
            retryCount = 0,
            stdout = [''[date] (s) hello\<newline>'', ''[date] (s) {}\<newline>'']\<rparr>"
proof -
  let ?S = "\<lparr>lastSeenTime = Some 150, seenEventIDs = Some [''b'' \<mapsto> True], StartTime = Some 150,
             retryCount = 0,
             stdout = [''[date] (s) hello\<newline>'', ''[date] (s) {}\<newline>'']\<rparr>"
  have wf: "\<forall>e \<in> set (events_of redelivery). wf_event e"
    by (simp add: redelivery_def events_of_samples event_sel)
  have ne: "events_of redelivery \<noteq> []"
    by (simp add: redelivery_def events_of_samples)
  have sn: "seen ?S ''b''" by (simp add: seen_def)
  note inst = watermark_is_max_and_no_duplicates
    [of redelivery plain_libs "()" ?S ?S 150 "event ''b'' 150 ''{}''" 150 "''b''"]
  from inst wf ne redelivery_run
  have "lastSeenTime ?S = Some (Max (set (timestamps (events_of redelivery))))" by blast
  then have a: "Some (Max (set (timestamps (events_of redelivery)))) = Some 150" by simp
  from inst sn have b: "handleEvent plain_libs () ?S (event ''b'' 150 ''{}'') = Inr ?S"
    by (simp add: event_sel)
  from a b redelivery_run show ?thesis by simp
qed


text \<open>The seen set when events arrive in the order of their timestamps.\<close>

lemma seen_at_watermark_frame:
  "seen_at_watermark (st\<lparr>retryCount := r, StartTime := s\<rparr>) hist = seen_at_watermark st hist"
  by (simp add: seen_at_watermark_def seen_def)

lemma handleEvent_seen_at_watermark:
  assumes t: "Timestamp e = Some t" and i: "EventId e = Some i"
    and h: "handleEvent L formatter st e = Inr st'"
    and inv: "seen_at_watermark st hist"
    and le: "\<forall>w. lastSeenTime st = Some w \<longrightarrow> w \<le> t"
  shows "seen_at_watermark st' (hist @ [e]) \<and> lastSeenTime st' = Some t"
proof (cases "lastSeenTime st = Some t")
  case True
  then have u: "updateLastSeenTime st (Timestamp e) = Inr st"
    using t by (simp add: updateLastSeenTime_def)
  show ?thesis
  proof (cases "seen st i")
    case True
    with u h i have "st' = st" by (simp add: handleEvent_def)
    with inv \<open>lastSeenTime st = Some t\<close> show ?thesis
      by (auto simp: seen_at_watermark_def)
  next
    case False
    with u h i obtain m where m: "seenEventIDs st = Some m"
      and st': "st' = st\<lparr>stdout := stdout st @ [printEvent L formatter e], seenEventIDs := Some (m(i \<mapsto> True))\<rparr>"
      by (auto simp: handleEvent_def addSeenEventIDs_def split: option.splits)
    have "seen st' j \<longleftrightarrow> j = i \<or> seen st j" for j
      using m st' by (auto simp: seen_def)
    with inv \<open>lastSeenTime st = Some t\<close> t i st' show ?thesis
      by (auto simp: seen_at_watermark_def)
  qed
next
  case False
  with le t have u: "updateLastSeenTime st (Timestamp e)
      = Inr (st\<lparr>lastSeenTime := Some t, seenEventIDs := Some Map.empty\<rparr>)"
    by (cases "lastSeenTime st") (auto simp: updateLastSeenTime_def clearSeenEventIds_def)
  with h i have st': "st' = st\<lparr>lastSeenTime := Some t, seenEventIDs := Some [i \<mapsto> True],
                         stdout := stdout st @ [printEvent L formatter e]\<rparr>"
    by (auto simp: handleEvent_def seen_def addSeenEventIDs_def)
  have "seen st' j \<longleftrightarrow> j = i" for j
    using st' by (auto simp: seen_def)
  with t i st' show ?thesis
    by (auto simp: seen_at_watermark_def)
qed

lemma handleEvents_seen_at_watermark:
  "\<forall>e \<in> set es. wf_event e \<Longrightarrow> sorted (timestamps es) \<Longrightarrow>
   handleEvents L formatter st es = Inr st' \<Longrightarrow> seen_at_watermark st hist \<Longrightarrow>
   \<forall>w. lastSeenTime st = Some w \<longrightarrow> (\<forall>t \<in> set (timestamps es). w \<le> t) \<Longrightarrow>
     seen_at_watermark st' (hist @ es)"
proof (induction es arbitrary: st hist)
  case Nil
  then show ?case by simp
next
  case (Cons e es)
  from Cons.prems(1) obtain t i where t: "Timestamp e = Some t" and i: "EventId e = Some i"
    by (auto simp: wf_event_def)
  from Cons.prems(3) obtain s1 where h: "handleEvent L formatter st e = Inr s1"
    and hs: "handleEvents L formatter s1 es = Inr st'"
    by (auto split: sum.splits)
  from Cons.prems(5) t have le: "\<forall>w. lastSeenTime st = Some w \<longrightarrow> w \<le> t" by simp
  from handleEvent_seen_at_watermark [OF t i h Cons.prems(4) le]
  have inv1: "seen_at_watermark s1 (hist @ [e])" and w1: "lastSeenTime s1 = Some t" by simp_all
  from Cons.prems(1) have wf: "\<forall>e \<in> set es. wf_event e" by simp
  from Cons.prems(2) t have so: "sorted (timestamps es)" and lb: "\<forall>u \<in> set (timestamps es). t \<le> u"
    by simp_all
  from w1 lb have "\<forall>w. lastSeenTime s1 = Some w \<longrightarrow> (\<forall>t \<in> set (timestamps es). w \<le> t)" by simp
  from Cons.IH [OF wf so hs inv1 this] show ?case by simp
qed

text \<open>
  Claim C4, as amended. Provided the events are delivered in non-decreasing order
  of timestamp, at every point of the loop, that is after any number of rounds
  \<open>pre\<close> and any number of events \<open>es\<close> of the round in progress, the seen set
  holds only identifiers of delivered events whose timestamp is the watermark, and
  the watermark is the largest timestamp delivered so far.
\<close>

theorem seen_set_at_watermark:
  assumes "\<forall>e \<in> set (events_of pre @ es). wf_event e"
    and "sorted (timestamps (events_of pre @ es))"
    and "follow_loop L formatter init_state pre = Running st1"
    and "handleEvents L formatter st1 es = Inr st'"
  shows "seen_at_watermark st' (events_of pre @ es)
       \<and> (events_of pre @ es \<noteq> [] \<longrightarrow>
            lastSeenTime st' = Some (Max (set (timestamps (events_of pre @ es)))))"
proof -
  from follow_loop_Running_events [OF assms(3)] obtain sb where
    hb: "handleEvents L formatter init_state (events_of pre) = Inr sb"
    and s1: "st1 = sb\<lparr>retryCount := retryCount st1, StartTime := StartTime st1\<rparr>" by blast
  from assms(4) s1
  have "handleEvents L formatter (sb\<lparr>retryCount := retryCount st1, StartTime := StartTime st1\<rparr>) es
          = Inr st'" by simp
  then obtain sd where hd: "handleEvents L formatter sb es = Inr sd"
    and s: "st' = sd\<lparr>retryCount := retryCount st1, StartTime := StartTime st1\<rparr>"
    by (auto simp: handleEvents_frame split: sum.splits)
  have h: "handleEvents L formatter init_state (events_of pre @ es) = Inr sd"
    using hb hd by (simp add: handleEvents_append)
  have n: "lastSeenTime init_state = None" by (simp add: init_state_def)
  have "seen_at_watermark init_state []"
    by (simp add: seen_at_watermark_def seen_def init_state_def)
  from handleEvents_seen_at_watermark [OF assms(1,2) h this] n
  have "seen_at_watermark sd (events_of pre @ es)" by simp
  with s have a: "seen_at_watermark st' (events_of pre @ es)"
    by (simp only: seen_at_watermark_frame)
  from s have l: "lastSeenTime st' = lastSeenTime sd" by simp
  have "lastSeenTime st' = Some (Max (set (timestamps (events_of pre @ es))))"
    if "events_of pre @ es \<noteq> []"
    using handleEvents_watermark_Max [OF assms(1) h n that] l by simp
  with a show ?thesis by blast
qed

text \<open>
  The claim C4 as stated fails when an older event follows a later one: the event
  of time 100 is rendered and recorded while the watermark stays at 150.
\<close>

lemma out_of_order_run:
  "follow_loop plain_libs () init_state out_of_order
     = Running \<lparr>lastSeenTime = Some 150, seenEventIDs = Some [''b'' \<mapsto> True, ''a'' \<mapsto> True],
                StartTime = Some 150, retryCount = 0,
                stdout = [''[date] (s) hello\<newline>'', ''[date] (s) hello\<newline>'']\<rparr>"
proof -
  have 1: "handleEvents plain_libs () init_state [event ''b'' 150 ''hello'', event ''a'' 100 ''hello'']
     = Inr \<lparr>lastSeenTime = Some 150, seenEventIDs = Some [''b'' \<mapsto> True, ''a'' \<mapsto> True],
            StartTime = None, retryCount = 0,
            stdout = [''[date] (s) hello\<newline>'', ''[date] (s) hello\<newline>'']\<rparr>"
    by (simp add: handleEvent_def updateLastSeenTime_def clearSeenEventIds_def addSeenEventIDs_def
          seen_def event_sel printEvent_samples init_state_def)
  show ?thesis
    using iteration_ok_poll [OF 1] by (simp add: out_of_order_def setStartTime_def)
qed

theorem seen_set_keeps_older_event:
  "follow_loop plain_libs () init_state out_of_order
     = Running \<lparr>lastSeenTime = Some 150, seenEventIDs = Some [''b'' \<mapsto> True, ''a'' \<mapsto> True],
                StartTime = Some 150, retryCount = 0,
                stdout = [''[date] (s) hello\<newline>'', ''[date] (s) hello\<newline>'']\<rparr>
   \<and> \<not> seen_at_watermark
         \<lparr>lastSeenTime = Some 150, seenEventIDs = Some [''b'' \<mapsto> True, ''a'' \<mapsto> True],
          StartTime = Some 150, retryCount = 0,
          stdout = [''[date] (s) hello\<newline>'', ''[date] (s) hello\<newline>'']\<rparr>
         (events_of out_of_order)"
proof -
  let ?S = "\<lparr>lastSeenTime = Some 150, seenEventIDs = Some [''b'' \<mapsto> True, ''a'' \<mapsto> True],
             StartTime = Some 150, retryCount = 0,
             stdout = [''[date] (s) hello\<newline>'', ''[date] (s) hello\<newline>'']\<rparr>"
  have s: "seen ?S ''a''" by (simp add: seen_def)
  have "\<not> (\<exists>e \<in> set (events_of out_of_order). EventId e = Some ''a'' \<and> Timestamp e = lastSeenTime ?S)"
    by (simp add: out_of_order_def events_of_samples event_sel)
  with s have "\<not> seen_at_watermark ?S (events_of out_of_order)"
    unfolding seen_at_watermark_def by blast
  with out_of_order_run show ?thesis by simp
qed

theorem seen_set_at_watermark_witness:
  "sorted (timestamps (events_of redelivery @ [event ''b'' 150 ''{}'', event ''c'' 160 ''hello'']))
   \<and> follow_loop plain_libs () init_state redelivery
     = Running \<lparr>lastSeenTime = Some 150, seenEventIDs = Some [''b'' \<mapsto> True], StartTime = Some 150,
                retryCount = 0,
                stdout = [''[date] (s) hello\<newline>'', ''[date] (s) {}\<newline>'']\<rparr>
   \<and> handleEvents plain_libs ()
        \<lparr>lastSeenTime = Some 150, seenEventIDs = Some [''b'' \<mapsto> True], StartTime = Some 150,
         retryCount = 0,
         stdout = [''[date] (s) hello\<newline>'', ''[date] (s) {}\<newline>'']\<rparr>
        [event ''b'' 150 ''{}'', event ''c'' 160 ''hello'']
     = Inr \<lparr>lastSeenTime = Some 160, seenEventIDs = Some [''c'' \<mapsto> True], StartTime = Some 150,
            retryCount = 0,
            stdout = [''[date] (s) hello\<newline>'', ''[date] (s) {}\<newline>'',
                      ''[date] (s) hello\<newline>'']\<rparr>
   \<and> seen_at_watermark
        \<lparr>lastSeenTime = Some 160, seenEventIDs = Some [''c'' \<mapsto> True], StartTime = Some 150,
         retryCount = 0,
         stdout = [''[date] (s) hello\<newline>'', ''[date] (s) {}\<newline>'',
                   ''[date] (s) hello\<newline>'']\<rparr>
        (events_of redelivery @ [event ''b'' 150 ''{}'', event ''c'' 160 ''hello''])"
proof -
  have wf: "\<forall>e \<in> set (events_of redelivery @ [event ''b'' 150 ''{}'', event ''c'' 160 ''hello'']).
              wf_event e"
    by (simp add: redelivery_def events_of_samples event_sel)
  have so: "sorted (timestamps (events_of redelivery @ [event ''b'' 150 ''{}'', event ''c'' 160 ''hello'']))"
    by (simp add: redelivery_def events_of_samples event_sel)
  have h: "handleEvents plain_libs ()
        \<lparr>lastSeenTime = Some 150, seenEventIDs = Some [''b'' \<mapsto> True], StartTime = Some 150,
         retryCount = 0,
         stdout = [''[date] (s) hello\<newline>'', ''[date] (s) {}\<newline>'']\<rparr>
        [event ''b'' 150 ''{}'', event ''c'' 160 ''hello'']
     = Inr \<lparr>lastSeenTime = Some 160, seenEventIDs = Some [''c'' \<mapsto> True], StartTime = Some 150,
            retryCount = 0,
            stdout = [''[date] (s) hello\<newline>'', ''[date] (s) {}\<newline>'',
                      ''[date] (s) hello\<newline>'']\<rparr>"
    by (simp add: handleEvent_def updateLastSeenTime_def clearSeenEventIds_def addSeenEventIDs_def
          seen_def event_sel printEvent_samples)
  from seen_set_at_watermark [OF wf so redelivery_run h] so redelivery_run h show ?thesis
    by simp
qed

end
